theory Spec2Isabelle
  imports Complex_Main "HOL-Library.Char_ord" "HOL-Library.List_Lexorder"
begin

section \<open>Numbers\<close>

text \<open>
  The source computes with JavaScript numbers. They are modelled as exact reals (no
  rounding, no overflow) extended with the three special values the source can produce
  from finite inputs: \<open>Infinity\<close> (the literal, and \<open>Q / cost\<close> at cost 0),
  \<open>-Infinity\<close> and \<open>NaN\<close> (\<open>Infinity - Infinity\<close>, \<open>0 * Infinity\<close>).
  Zero is the positive zero: the one division whose divisor can be zero divides by a
  sum of non-negative terms that starts at \<open>0\<close>.
  Coordinates, battery and signal of a node are finite and are kept as \<open>real\<close>;
  values that can become infinite (tentative distances, route costs, pheromone levels,
  selection weights) are of type \<open>number\<close>.
\<close>

datatype number = Num real | PInf | NInf | NaN

fun nneg :: "number \<Rightarrow> number" where
  "nneg (Num a) = Num (- a)"
| "nneg PInf = NInf"
| "nneg NInf = PInf"
| "nneg NaN = NaN"

fun nadd :: "number \<Rightarrow> number \<Rightarrow> number" where
  "nadd (Num a) (Num b) = Num (a + b)"
| "nadd NaN _ = NaN"
| "nadd _ NaN = NaN"
| "nadd PInf NInf = NaN"
| "nadd NInf PInf = NaN"
| "nadd PInf _ = PInf"
| "nadd _ PInf = PInf"
| "nadd NInf _ = NInf"
| "nadd _ NInf = NInf"

definition nsub :: "number \<Rightarrow> number \<Rightarrow> number" where
  "nsub a b = nadd a (nneg b)"

text \<open>The sign of an infinite product; \<open>0 * Infinity\<close> is \<open>NaN\<close>.\<close>

definition inf_times :: "bool \<Rightarrow> real \<Rightarrow> number" where
  "inf_times positive a =
     (if a = 0 then NaN else if (0 < a) = positive then PInf else NInf)"

fun nmul :: "number \<Rightarrow> number \<Rightarrow> number" where
  "nmul (Num a) (Num b) = Num (a * b)"
| "nmul NaN _ = NaN"
| "nmul _ NaN = NaN"
| "nmul PInf (Num b) = inf_times True b"
| "nmul NInf (Num b) = inf_times False b"
| "nmul (Num a) PInf = inf_times True a"
| "nmul (Num a) NInf = inf_times False a"
| "nmul PInf PInf = PInf"
| "nmul NInf NInf = PInf"
| "nmul PInf NInf = NInf"
| "nmul NInf PInf = NInf"

fun ndiv :: "number \<Rightarrow> number \<Rightarrow> number" where
  "ndiv (Num a) (Num b) =
     (if b = 0 then (if a = 0 then NaN else if 0 < a then PInf else NInf)
      else Num (a / b))"
| "ndiv NaN _ = NaN"
| "ndiv _ NaN = NaN"
| "ndiv (Num a) PInf = Num 0"
| "ndiv (Num a) NInf = Num 0"
| "ndiv PInf (Num b) = (if 0 \<le> b then PInf else NInf)"
| "ndiv NInf (Num b) = (if 0 \<le> b then NInf else PInf)"
| "ndiv PInf PInf = NaN"
| "ndiv PInf NInf = NaN"
| "ndiv NInf PInf = NaN"
| "ndiv NInf NInf = NaN"

text \<open>The comparisons \<open><\<close> and \<open><=\<close>: false whenever an operand is \<open>NaN\<close>.\<close>

fun nlt :: "number \<Rightarrow> number \<Rightarrow> bool" where
  "nlt (Num a) (Num b) = (a < b)"
| "nlt NaN _ = False"
| "nlt _ NaN = False"
| "nlt _ NInf = False"
| "nlt PInf _ = False"
| "nlt NInf _ = True"
| "nlt _ PInf = True"

fun nle :: "number \<Rightarrow> number \<Rightarrow> bool" where
  "nle (Num a) (Num b) = (a \<le> b)"
| "nle NaN _ = False"
| "nle _ NaN = False"
| "nle NInf _ = True"
| "nle _ PInf = True"
| "nle PInf _ = False"
| "nle _ NInf = False"

text \<open>\<open>Math.pow\<close> at the exponents the source uses (the constants 1 and 2).\<close>

fun Math_pow :: "number \<Rightarrow> nat \<Rightarrow> number" where
  "Math_pow v 0 = Num 1"
| "Math_pow v (Suc n) = nmul v (Math_pow v n)"

text \<open>
  Truthiness as the operator \<open>||\<close> reads it: a number is falsy when it is \<open>0\<close> or
  \<open>NaN\<close>, a string when it is empty, \<open>undefined\<close> and \<open>null\<close> always.
  \<open>or_number (m.get k) d\<close> is \<open>m.get(k) || d\<close>.
\<close>

definition falsy :: "number \<Rightarrow> bool" where
  "falsy v = (v = Num 0 \<or> v = NaN)"

definition or_number :: "number option \<Rightarrow> number \<Rightarrow> number" where
  "or_number v d = (case v of None \<Rightarrow> d | Some w \<Rightarrow> if falsy w then d else w)"

definition or_null :: "string option \<Rightarrow> string option" where
  "or_null v = (case v of None \<Rightarrow> None | Some w \<Rightarrow> if w = [] then None else Some w)"

section \<open>Data model\<close>

text \<open>
  The interfaces \<open>Node\<close>, \<open>Route\<close> and \<open>Connection\<close> of the type declarations.
  Field names that would clash with constants or variables carry a prefix: \<open>node_id\<close>,
  \<open>node_name\<close>, \<open>node_x\<close>, \<open>node_y\<close> for \<open>id\<close>, \<open>name\<close>, \<open>x\<close>, \<open>y\<close>, and
  \<open>route_source\<close>, \<open>route_destination\<close>, \<open>route_path\<close> for those of a route,
  \<open>conn_nodeA\<close>, \<open>conn_nodeB\<close>, \<open>conn_latency\<close> for those of a connection.
  \<open>lastSeen\<close> is a time stamp in milliseconds. The optional \<open>location\<close> is never read
  or written by the modelled code and is left out.
\<close>

datatype Status = Online | Offline | Busy | Relay

datatype Priority = Critical | High | Normal | Low

record Node =
  node_id :: string
  node_name :: string
  node_x :: real
  node_y :: real
  status :: Status
  battery :: real
  signalStrength :: real
  connections :: "string list"
  lastSeen :: nat
  messageCount :: nat
  ipAddress :: string

record Route =
  route_source :: string
  route_destination :: string
  route_path :: "string list"
  cost :: number
  latency :: real
  reliability :: real

record Connection =
  conn_nodeA :: string
  conn_nodeB :: string
  strength :: real
  conn_latency :: real
  active :: bool

text \<open>\<open>nodes.find(n => n.id === k)\<close>, the lookup every routine uses.\<close>

definition find_node :: "Node list \<Rightarrow> string \<Rightarrow> Node option" where
  "find_node nodes k = find (\<lambda>n. node_id n = k) nodes"

text \<open>The Euclidean distance every routine writes out inline.\<close>

definition euclid :: "Node \<Rightarrow> Node \<Rightarrow> real" where
  "euclid a b = sqrt ((node_x b - node_x a)\<^sup>2 + (node_y b - node_y a)\<^sup>2)"

section \<open>DijkstraRouter\<close>

text \<open>
  The three collections of \<open>findShortestPath\<close>: two maps and a set. The set is
  iterated in insertion order, so it is a list without duplicates.
\<close>

record dijkstra_state =
  distances :: "string \<rightharpoonup> number"
  previous :: "string \<rightharpoonup> string option"
  unvisited :: "string list"

definition set_add :: "string \<Rightarrow> string list \<Rightarrow> string list" where
  "set_add k ks = (if k \<in> set ks then ks else ks @ [k])"

definition initialize :: "Node list \<Rightarrow> string \<Rightarrow> dijkstra_state" where
  "initialize nodes sourceId =
     (let st = fold (\<lambda>node st.
                 \<lparr>distances = (distances st)(node_id node \<mapsto> PInf),
                  previous = (previous st)(node_id node \<mapsto> None),
                  unvisited = set_add (node_id node) (unvisited st)\<rparr>)
               nodes \<lparr>distances = Map.empty, previous = Map.empty, unvisited = []\<rparr>
      in st\<lparr>distances := (distances st)(sourceId \<mapsto> Num 0)\<rparr>)"

text \<open>The scan for the unvisited node of minimum distance.\<close>

definition findMin :: "(string \<rightharpoonup> number) \<Rightarrow> string list \<Rightarrow> string option \<times> number" where
  "findMin ds ks =
     fold (\<lambda>nodeId (minNode, minDistance).
             let distance = or_number (ds nodeId) PInf
             in if nlt distance minDistance then (Some nodeId, distance)
                else (minNode, minDistance))
          ks (None, PInf)"

definition calculateEdgeCost :: "Node \<Rightarrow> Node \<Rightarrow> real" where
  "calculateEdgeCost a b =
     (let distance = euclid a b;
          signalFactor = (200 - signalStrength a - signalStrength b) / 200;
          batteryFactor = (200 - battery a - battery b) / 200
      in distance * (1 + signalFactor * 0.5 + batteryFactor * 0.3))"

text \<open>The body of \<open>currentNode.connections.forEach\<close>: relaxing one neighbour.\<close>

definition relax :: "Node list \<Rightarrow> Node \<Rightarrow> string \<Rightarrow> string \<Rightarrow> dijkstra_state \<Rightarrow> dijkstra_state" where
  "relax nodes currentNode minNode neighborId st =
     (if neighborId \<notin> set (unvisited st) then st
      else case find_node nodes neighborId of
        None \<Rightarrow> st
      | Some neighbor \<Rightarrow>
          if status neighbor \<noteq> Online then st
          else let edgeCost = calculateEdgeCost currentNode neighbor;
                   newDistance = nadd (or_number (distances st minNode) (Num 0)) (Num edgeCost)
               in if nlt newDistance (or_number (distances st neighborId) PInf)
                  then st\<lparr>distances := (distances st)(neighborId \<mapsto> newDistance),
                          previous := (previous st)(neighborId \<mapsto> Some minNode)\<rparr>
                  else st)"

lemma findMin_fold_mem:
  "fst (fold (\<lambda>nodeId (minNode, minDistance).
             let distance = or_number (ds nodeId) PInf
             in if nlt distance minDistance then (Some nodeId, distance)
                else (minNode, minDistance)) ks acc) = Some k
   \<Longrightarrow> k \<in> set ks \<or> fst acc = Some k"
proof (induction ks arbitrary: acc)
  case Nil
  then show ?case by simp
next
  case (Cons a ks)
  obtain m d where acc: "acc = (m, d)" by (cases acc)
  from Cons.prems Cons.IH show ?case
    by (fastforce simp: acc Let_def split: if_splits)
qed

lemma findMin_mem: "fst (findMin ds ks) = Some k \<Longrightarrow> k \<in> set ks"
  using findMin_fold_mem [of ds ks "(None, PInf)" k] by (simp add: findMin_def)

lemma unvisited_relax [simp]: "unvisited (relax nodes c m k st) = unvisited st"
  by (simp add: relax_def Let_def split: option.splits)

lemma unvisited_fold_relax [simp]:
  "unvisited (fold (relax nodes c m) ks st) = unvisited st"
  by (induction ks arbitrary: st) simp_all

text \<open>
  The main loop. Every turn that does not leave the loop deletes \<open>minNode\<close>, a member
  of \<open>unvisited\<close>, so the loop ends.
\<close>

function dijkstra_loop :: "Node list \<Rightarrow> string \<Rightarrow> dijkstra_state \<Rightarrow> dijkstra_state" where
  "dijkstra_loop nodes destinationId st =
     (if unvisited st = [] then st
      else case fst (findMin (distances st) (unvisited st)) of
        None \<Rightarrow> st
      | Some minNode \<Rightarrow>
          if minNode = destinationId then st
          else let st1 = st\<lparr>unvisited := removeAll minNode (unvisited st)\<rparr>
               in case find_node nodes minNode of
                    None \<Rightarrow> dijkstra_loop nodes destinationId st1
                  | Some currentNode \<Rightarrow>
                      dijkstra_loop nodes destinationId
                        (fold (relax nodes currentNode minNode) (connections currentNode) st1))"
  by pat_completeness auto
termination
  by (relation "measure (\<lambda>(nodes, d, st). length (unvisited st))")
     (auto dest!: findMin_mem simp: length_removeAll_less)

declare dijkstra_loop.simps [simp del]

text \<open>
  Path reconstruction walks \<open>previous\<close> from the destination:
  \<open>current = previous.get(current) || null\<close>. The walk has no bound of its own, so
  the model is a partial function: \<open>None\<close> stands for a walk that never ends.
\<close>

partial_function (option) reconstruct ::
  "(string \<rightharpoonup> string option) \<Rightarrow> string option \<Rightarrow> string list \<Rightarrow> string list option" where
  "reconstruct prev current path =
     (case current of
        None \<Rightarrow> Some path
      | Some c \<Rightarrow>
          reconstruct prev (or_null (case prev c of None \<Rightarrow> None | Some p \<Rightarrow> p)) (c # path))"

text \<open>\<open>estimateLatency\<close>: the loop over the consecutive pairs of the path.\<close>

fun estimateLatency_loop :: "string list \<Rightarrow> Node list \<Rightarrow> real \<Rightarrow> real" where
  "estimateLatency_loop (a # b # rest) nodes totalLatency =
     estimateLatency_loop (b # rest) nodes
       (case find_node nodes a of
          None \<Rightarrow> totalLatency
        | Some na \<Rightarrow>
            (case find_node nodes b of
               None \<Rightarrow> totalLatency
             | Some nb \<Rightarrow> totalLatency + (10 + euclid na nb / 10)))"
| "estimateLatency_loop _ nodes totalLatency = totalLatency"

definition estimateLatency :: "string list \<Rightarrow> Node list \<Rightarrow> real" where
  "estimateLatency path nodes = estimateLatency_loop path nodes 0"

definition calculateReliability :: "string list \<Rightarrow> Node list \<Rightarrow> real" where
  "calculateReliability path nodes =
     fold (\<lambda>nodeId r.
             case find_node nodes nodeId of
               None \<Rightarrow> r
             | Some node \<Rightarrow> r * ((signalStrength node / 100) * (battery node / 100)))
          path 1"

text \<open>
  \<open>findShortestPath\<close>. The outer option is \<open>None\<close> when the call does not return;
  the inner one is the source's \<open>Route | null\<close>. \<open>path[0]\<close> of an empty array is
  \<open>undefined\<close>, which differs from every id.
\<close>

definition findShortestPath :: "Node list \<Rightarrow> string \<Rightarrow> string \<Rightarrow> Route option option" where
  "findShortestPath nodes sourceId destinationId =
     (let st = dijkstra_loop nodes destinationId (initialize nodes sourceId)
      in case reconstruct (previous st) (Some destinationId) [] of
           None \<Rightarrow> None
         | Some path \<Rightarrow>
             Some (if (case path of [] \<Rightarrow> True | p # _ \<Rightarrow> p \<noteq> sourceId) then None
                   else Some \<lparr>route_source = sourceId,
                              route_destination = destinationId,
                              route_path = path,
                              cost = or_number (distances st destinationId) PInf,
                              latency = estimateLatency path nodes,
                              reliability = calculateReliability path nodes\<rparr>))"

subsection \<open>What the first scan finds\<close>

text \<open>
  After initialisation every tentative distance is \<open>Infinity\<close> or, at the source,
  \<open>0\<close>; read through \<open>|| Infinity\<close> all of them are \<open>Infinity\<close>.
\<close>

lemma initialize_fold_distances:
  "\<forall>k. distances st0 k \<in> {None, Some PInf} \<Longrightarrow>
   distances (fold (\<lambda>node st.
                 \<lparr>distances = (distances st)(node_id node \<mapsto> PInf),
                  previous = (previous st)(node_id node \<mapsto> None),
                  unvisited = set_add (node_id node) (unvisited st)\<rparr>) nodes st0) k
     \<in> {None, Some PInf}"
  by (induction nodes arbitrary: st0) auto

lemma initialize_fold_previous:
  "\<forall>k. previous st0 k \<in> {None, Some None} \<Longrightarrow>
   previous (fold (\<lambda>node st.
                 \<lparr>distances = (distances st)(node_id node \<mapsto> PInf),
                  previous = (previous st)(node_id node \<mapsto> None),
                  unvisited = set_add (node_id node) (unvisited st)\<rparr>) nodes st0) k
     \<in> {None, Some None}"
  by (induction nodes arbitrary: st0) auto

lemma distances_initialize:
  "distances (initialize nodes s) k \<in> {None, Some PInf, Some (Num 0)}"
  using initialize_fold_distances
    [of "\<lparr>distances = Map.empty, previous = Map.empty, unvisited = []\<rparr>" nodes k]
  by (auto simp: initialize_def Let_def)

lemma distances_initialize_source: "distances (initialize nodes s) s = Some (Num 0)"
  by (simp add: initialize_def Let_def)

lemma previous_initialize: "previous (initialize nodes s) k \<in> {None, Some None}"
  using initialize_fold_previous
    [of "\<lparr>distances = Map.empty, previous = Map.empty, unvisited = []\<rparr>" nodes k]
  by (auto simp: initialize_def Let_def)

lemma or_number_initialize: "or_number (distances (initialize nodes s) k) PInf = PInf"
  using distances_initialize [of nodes s k] by (auto simp: or_number_def falsy_def)

lemma findMin_fold_none:
  "\<forall>k. or_number (ds k) PInf = PInf \<Longrightarrow>
   fold (\<lambda>nodeId (minNode, minDistance).
             let distance = or_number (ds nodeId) PInf
             in if nlt distance minDistance then (Some nodeId, distance)
                else (minNode, minDistance)) ks (None, PInf) = (None, PInf)"
  by (induction ks) simp_all

lemma findMin_initialize: "findMin (distances (initialize nodes s)) ks = (None, PInf)"
  unfolding findMin_def by (rule findMin_fold_none) (simp add: or_number_initialize)

text \<open>So the loop leaves at its first turn, with nothing relaxed.\<close>

lemma dijkstra_loop_initialize:
  "dijkstra_loop nodes d (initialize nodes s) = initialize nodes s"
  by (subst dijkstra_loop.simps) (simp add: findMin_initialize)

lemma reconstruct_initialize:
  "reconstruct (previous (initialize nodes s)) (Some d) [] = Some [d]"
proof -
  have "(case previous (initialize nodes s) d of None \<Rightarrow> None | Some p \<Rightarrow> p) = None"
    using previous_initialize [of nodes s d] by auto
  then show ?thesis
    by (subst reconstruct.simps, simp add: or_null_def) (subst reconstruct.simps, simp)
qed

lemma findShortestPath_eq:
  "findShortestPath nodes s d =
     Some (if d = s
           then Some \<lparr>route_source = s, route_destination = d, route_path = [d],
                      cost = PInf, latency = 0,
                      reliability = calculateReliability [d] nodes\<rparr>
           else None)"
  by (simp add: findShortestPath_def dijkstra_loop_initialize reconstruct_initialize
      distances_initialize_source or_number_def falsy_def estimateLatency_def)

section \<open>AntColonyRouter\<close>

text \<open>The constants of \<open>ROUTING_CONFIG\<close>.\<close>

definition ACO_ITERATIONS :: nat where "ACO_ITERATIONS = 100"
definition ANT_COUNT :: nat where "ANT_COUNT = 10"
definition PHEROMONE_INITIAL :: number where "PHEROMONE_INITIAL = Num 1"
definition PHEROMONE_EVAPORATION :: real where "PHEROMONE_EVAPORATION = 0.5"
definition ALPHA :: nat where "ALPHA = 1"
definition BETA :: nat where "BETA = 2"
definition Q :: number where "Q = Num 100"

text \<open>
  The router object keeps one field, the pheromone map, from call to call. The values
  \<open>Math.random()\<close> returns are a parameter \<open>rnd\<close> of every routine that draws;
  \<open>draws\<close> counts the calls made so far, so the next value is \<open>rnd (draws st)\<close>.
\<close>

record aco_state =
  pheromones :: "string \<rightharpoonup> number"
  draws :: nat

text \<open>\<open>[nodeA, nodeB].sort().join('-')\<close>: the smaller id first, in the order of strings.\<close>

definition getEdgeKey :: "string \<Rightarrow> string \<Rightarrow> string" where
  "getEdgeKey a b = (if b < a then b @ ''-'' @ a else a @ ''-'' @ b)"

definition initializePheromones :: "Node list \<Rightarrow> (string \<rightharpoonup> number) \<Rightarrow> (string \<rightharpoonup> number)" where
  "initializePheromones nodes ph =
     fold (\<lambda>a ph. fold (\<lambda>b ph. ph(getEdgeKey (node_id a) b \<mapsto> PHEROMONE_INITIAL))
                        (connections a) ph)
          nodes ph"

text \<open>The keys of the edges present in a node list: one per adjacency entry.\<close>

definition edgeKeys :: "Node list \<Rightarrow> string set" where
  "edgeKeys nodes =
     set (concat (map (\<lambda>a. map (getEdgeKey (node_id a)) (connections a)) nodes))"

definition evaporatePheromones :: "(string \<rightharpoonup> number) \<Rightarrow> (string \<rightharpoonup> number)" where
  "evaporatePheromones ph =
     (\<lambda>key. map_option (\<lambda>v. nmul v (Num (1 - PHEROMONE_EVAPORATION))) (ph key))"

fun deposit_loop :: "string list \<Rightarrow> number \<Rightarrow> (string \<rightharpoonup> number) \<Rightarrow> (string \<rightharpoonup> number)" where
  "deposit_loop (a # b # rest) deposit ph =
     deposit_loop (b # rest) deposit
       (let key = getEdgeKey a b;
            current = or_number (ph key) (Num 0)
        in ph(key \<mapsto> nadd current deposit))"
| "deposit_loop _ deposit ph = ph"

definition depositPheromones :: "Route \<Rightarrow> Priority \<Rightarrow> (string \<rightharpoonup> number) \<Rightarrow> (string \<rightharpoonup> number)" where
  "depositPheromones route priority ph =
     (let deposit = nmul (ndiv Q (cost route))
                      (Num (case priority of Critical \<Rightarrow> 2 | High \<Rightarrow> 1.5 | _ \<Rightarrow> 1))
      in deposit_loop (route_path route) deposit ph)"

text \<open>
  \<open>selectNextNode\<close>: the weights, then the roulette wheel. \<open>Math.random\<close> is called
  only when the total weight is not \<open>0\<close>.
\<close>

definition weights ::
  "(string \<rightharpoonup> number) \<Rightarrow> Node \<Rightarrow> string list \<Rightarrow> Node list \<Rightarrow> string
     \<Rightarrow> (string \<times> number) list \<times> number" where
  "weights ph current neighbors nodes destination =
     fold (\<lambda>neighborId (probabilities, totalWeight).
             case find_node nodes neighborId of
               None \<Rightarrow> (probabilities, totalWeight)
             | Some neighbor \<Rightarrow>
                 let edgeKey = getEdgeKey (node_id current) neighborId;
                     pheromone = or_number (ph edgeKey) PHEROMONE_INITIAL;
                     heuristic = (case find_node nodes destination of
                                    Some destNode \<Rightarrow> 1 / (1 + euclid neighbor destNode)
                                  | None \<Rightarrow> 1);
                     v = nmul (Math_pow pheromone ALPHA) (Math_pow (Num heuristic) BETA)
                 in (probabilities @ [(neighborId, v)], nadd totalWeight v))
          neighbors ([], Num 0)"

fun roulette :: "(string \<times> number) list \<Rightarrow> number \<Rightarrow> string option" where
  "roulette [] random = None"
| "roulette ((i, prob) # rest) random =
     (let random' = nsub random prob
      in if nle random' (Num 0) then Some i else roulette rest random')"

definition selectNextNode ::
  "(nat \<Rightarrow> real) \<Rightarrow> aco_state \<Rightarrow> Node \<Rightarrow> string list \<Rightarrow> Node list \<Rightarrow> string
     \<Rightarrow> string option \<times> aco_state" where
  "selectNextNode rnd st current neighbors nodes destination =
     (case weights (pheromones st) current neighbors nodes destination of
        (probabilities, totalWeight) \<Rightarrow>
          if totalWeight = Num 0 then (case neighbors of [] \<Rightarrow> None | n # _ \<Rightarrow> Some n, st)
          else let random = nmul (Num (rnd (draws st))) totalWeight;
                   st' = st\<lparr>draws := Suc (draws st)\<rparr>
               in (case roulette probabilities random of
                     Some i \<Rightarrow> Some i
                   | None \<Rightarrow>
                       or_null (if probabilities = [] then None
                                else Some (fst (last probabilities))),
                   st'))"

lemma weights_fold_ids:
  "fst ` set (fst (fold (\<lambda>neighborId (probabilities, totalWeight).
             case find_node nodes neighborId of
               None \<Rightarrow> (probabilities, totalWeight)
             | Some neighbor \<Rightarrow>
                 let edgeKey = getEdgeKey (node_id current) neighborId;
                     pheromone = or_number (ph edgeKey) PHEROMONE_INITIAL;
                     heuristic = (case find_node nodes destination of
                                    Some destNode \<Rightarrow> 1 / (1 + euclid neighbor destNode)
                                  | None \<Rightarrow> 1);
                     v = nmul (Math_pow pheromone ALPHA) (Math_pow (Num heuristic) BETA)
                 in (probabilities @ [(neighborId, v)], nadd totalWeight v))
          neighbors acc))
   \<subseteq> set neighbors \<union> fst ` set (fst acc)"
proof (induction neighbors arbitrary: acc)
  case Nil
  then show ?case by simp
next
  case (Cons a neighbors)
  obtain ps t where acc: "acc = (ps, t)" by (cases acc)
  show ?case
  proof (cases "find_node nodes a")
    case None
    then show ?thesis using Cons.IH [of "(ps, t)"] by (auto simp: acc)
  next
    case (Some nb)
    then show ?thesis
      using Cons.IH [of "(ps @ [(a, nmul (Math_pow (or_number (ph (getEdgeKey (node_id current) a))
          PHEROMONE_INITIAL) ALPHA) (Math_pow (Num (case find_node nodes destination of
             Some destNode \<Rightarrow> 1 / (1 + euclid nb destNode) | None \<Rightarrow> 1)) BETA))],
          nadd t (nmul (Math_pow (or_number (ph (getEdgeKey (node_id current) a))
          PHEROMONE_INITIAL) ALPHA) (Math_pow (Num (case find_node nodes destination of
             Some destNode \<Rightarrow> 1 / (1 + euclid nb destNode) | None \<Rightarrow> 1)) BETA)))"]
      by (auto simp: acc Let_def)
  qed
qed

lemma weights_ids:
  "fst ` set (fst (weights ph current neighbors nodes destination)) \<subseteq> set neighbors"
  using weights_fold_ids [where acc = "([], Num 0)" and neighbors = neighbors]
  by (simp add: weights_def)

lemma roulette_mem: "roulette ps r = Some i \<Longrightarrow> i \<in> fst ` set ps"
  by (induction ps r rule: roulette.induct) (auto simp: Let_def split: if_splits)

lemma selectNextNode_mem:
  assumes "selectNextNode rnd st current neighbors nodes destination = (Some n, st')"
  shows "n \<in> set neighbors"
proof -
  obtain ps t where w: "weights (pheromones st) current neighbors nodes destination = (ps, t)"
    by (cases "weights (pheromones st) current neighbors nodes destination")
  have sub: "fst ` set ps \<subseteq> set neighbors"
    using weights_ids [of "pheromones st" current neighbors nodes destination] by (simp add: w)
  show ?thesis
  proof (cases "t = Num 0")
    case True
    with assms w show ?thesis
      by (auto simp: selectNextNode_def split: list.splits)
  next
    case False
    show ?thesis
    proof (cases "roulette ps (nmul (Num (rnd (draws st))) t)")
      case None
      with assms w False have "ps \<noteq> []" "n = fst (last ps)"
        by (auto simp: selectNextNode_def Let_def or_null_def split: if_splits)
      then have "n \<in> fst ` set ps" by simp
      with sub show ?thesis by blast
    next
      case (Some i)
      with assms w False have "n = i"
        by (auto simp: selectNextNode_def Let_def)
      with Some roulette_mem sub show ?thesis by blast
    qed
  qed
qed

lemma selectNextNode_pheromones:
  "pheromones (snd (selectNextNode rnd st current neighbors nodes destination)) = pheromones st"
  by (simp add: selectNextNode_def Let_def split: prod.splits)

lemma find_node_Some_id: "find_node nodes k = Some n \<Longrightarrow> k \<in> node_id ` set nodes"
  by (auto simp: find_node_def find_Some_iff)

lemma find_node_None_iff: "find_node nodes k = None \<longleftrightarrow> k \<notin> node_id ` set nodes"
  by (auto simp: find_node_def find_None_iff)

text \<open>
  The \<open>while\<close> loop of \<open>antTraverse\<close>, on the tuple of its variables
  \<open>(path, visited, currentId, totalCost)\<close> and the router state. Every \<open>break\<close>
  returns the tuple as it stands. A turn that goes on adds to \<open>visited\<close> an id of the
  node list that was not in it, so the loop ends.
\<close>

definition available :: "Node list \<Rightarrow> string set \<Rightarrow> Node \<Rightarrow> string list" where
  "available nodes visited currentNode =
     filter (\<lambda>i. case find_node nodes i of
                    None \<Rightarrow> False
                  | Some node \<Rightarrow> status node = Online \<and> i \<notin> visited)
            (connections currentNode)"

definition priorityModifier :: "Priority \<Rightarrow> real" where
  "priorityModifier priority =
     (if priority = Critical then 0.5 else if priority = High then 0.75 else 1.0)"

lemma available_not_visited: "i \<in> set (available nodes visited c) \<Longrightarrow> i \<notin> visited"
  by (auto simp: available_def split: option.splits)

lemma card_Diff_insert_less:
  assumes "finite S" "n \<in> S" "n \<notin> V"
  shows "card (S - insert n V) < card (S - V)"
proof -
  have "S - insert n V \<subset> S - V" using assms by auto
  with assms(1) show ?thesis by (simp add: psubset_card_mono)
qed

function antTraverse_loop ::
  "(nat \<Rightarrow> real) \<Rightarrow> Node list \<Rightarrow> string \<Rightarrow> Priority
     \<Rightarrow> string list \<times> string set \<times> string \<times> real \<times> aco_state
     \<Rightarrow> string list \<times> string \<times> real \<times> aco_state" where
  "antTraverse_loop rnd nodes destinationId priority (path, visited, currentId, totalCost, st) =
     (if currentId = destinationId then (path, currentId, totalCost, st)
      else case find_node nodes currentId of
        None \<Rightarrow> (path, currentId, totalCost, st)
      | Some currentNode \<Rightarrow>
          if available nodes visited currentNode = [] then (path, currentId, totalCost, st)
          else case selectNextNode rnd st currentNode (available nodes visited currentNode)
                      nodes destinationId of
            (None, st') \<Rightarrow> (path, currentId, totalCost, st')
          | (Some nextId, st') \<Rightarrow>
              if nextId = [] then (path, currentId, totalCost, st')
              else case find_node nodes nextId of
                None \<Rightarrow> (path, currentId, totalCost, st')
              | Some nextNode \<Rightarrow>
                  antTraverse_loop rnd nodes destinationId priority
                    (path @ [nextId], insert nextId visited, nextId,
                     totalCost + euclid currentNode nextNode * priorityModifier priority, st'))"
  by pat_completeness auto

termination
  by (relation "measure (\<lambda>(rnd, nodes, d, p, path, visited, c, t, st).
                   card (node_id ` set nodes - visited))")
     (auto intro!: card_Diff_insert_less
           dest!: selectNextNode_mem [OF sym] available_not_visited find_node_Some_id)

declare antTraverse_loop.simps [simp del]

definition antTraverse ::
  "(nat \<Rightarrow> real) \<Rightarrow> Node list \<Rightarrow> string \<Rightarrow> string \<Rightarrow> Priority \<Rightarrow> aco_state
     \<Rightarrow> Route option \<times> aco_state" where
  "antTraverse rnd nodes sourceId destinationId priority st =
     (case antTraverse_loop rnd nodes destinationId priority
             ([sourceId], {sourceId}, sourceId, 0, st) of
        (path, currentId, totalCost, st') \<Rightarrow>
          (if currentId \<noteq> destinationId then None
           else Some \<lparr>route_source = sourceId,
                      route_destination = destinationId,
                      route_path = path,
                      cost = Num totalCost,
                      latency = real (length path) * 15,
                      reliability = 0.9\<rparr>,
           st'))"

text \<open>
  The inner \<open>for\<close> loop of \<open>findOptimalPath\<close> (one ant per turn; the first argument
  counts the turns left) on \<open>(routes, bestRoute, bestCost)\<close> and the router state.
\<close>

fun deployAnts ::
  "nat \<Rightarrow> (nat \<Rightarrow> real) \<Rightarrow> Node list \<Rightarrow> string \<Rightarrow> string \<Rightarrow> Priority
     \<Rightarrow> Route list \<times> Route option \<times> number \<times> aco_state
     \<Rightarrow> Route list \<times> Route option \<times> number \<times> aco_state" where
  "deployAnts 0 rnd nodes sourceId destinationId priority acc = acc"
| "deployAnts (Suc n) rnd nodes sourceId destinationId priority (routes, bestRoute, bestCost, st) =
     (case antTraverse rnd nodes sourceId destinationId priority st of
        (None, st') \<Rightarrow>
          deployAnts n rnd nodes sourceId destinationId priority
            (routes, bestRoute, bestCost, st')
      | (Some route, st') \<Rightarrow>
          deployAnts n rnd nodes sourceId destinationId priority
            (if nlt (cost route) bestCost
             then (routes @ [route], Some route, cost route, st')
             else (routes @ [route], bestRoute, bestCost, st')))"

text \<open>The outer loop: the ants, then evaporation, then one deposit per route found.\<close>

fun iterations ::
  "nat \<Rightarrow> (nat \<Rightarrow> real) \<Rightarrow> Node list \<Rightarrow> string \<Rightarrow> string \<Rightarrow> Priority
     \<Rightarrow> Route option \<times> number \<times> aco_state
     \<Rightarrow> Route option \<times> number \<times> aco_state" where
  "iterations 0 rnd nodes sourceId destinationId priority acc = acc"
| "iterations (Suc n) rnd nodes sourceId destinationId priority (bestRoute, bestCost, st) =
     (case deployAnts ANT_COUNT rnd nodes sourceId destinationId priority
             ([], bestRoute, bestCost, st) of
        (routes, bestRoute', bestCost', st') \<Rightarrow>
          iterations n rnd nodes sourceId destinationId priority
            (bestRoute', bestCost',
             st'\<lparr>pheromones :=
                   fold (\<lambda>route ph. depositPheromones route priority ph) routes
                     (evaporatePheromones (pheromones st'))\<rparr>))"

text \<open>
  \<open>pheromones_at_start nodes st\<close> is the router state once the first statement of
  \<open>findOptimalPath\<close>, the call of \<open>initializePheromones\<close>, has run.
\<close>

definition pheromones_at_start :: "Node list \<Rightarrow> aco_state \<Rightarrow> aco_state" where
  "pheromones_at_start nodes st = st\<lparr>pheromones := initializePheromones nodes (pheromones st)\<rparr>"

definition findOptimalPath ::
  "(nat \<Rightarrow> real) \<Rightarrow> Node list \<Rightarrow> string \<Rightarrow> string \<Rightarrow> Priority \<Rightarrow> aco_state
     \<Rightarrow> Route option \<times> aco_state" where
  "findOptimalPath rnd nodes sourceId destinationId priority st =
     (case iterations ACO_ITERATIONS rnd nodes sourceId destinationId priority
             (None, PInf, pheromones_at_start nodes st) of
        (bestRoute, bestCost, st') \<Rightarrow> (bestRoute, st'))"

section \<open>Router\<close>

text \<open>
  The facade owns one \<open>DijkstraRouter\<close>, which has no state, and one
  \<open>AntColonyRouter\<close>, whose state it passes on. A result is \<open>None\<close> when the call
  does not return.
\<close>

definition findRoute ::
  "(nat \<Rightarrow> real) \<Rightarrow> Node list \<Rightarrow> string \<Rightarrow> string \<Rightarrow> Priority \<Rightarrow> aco_state
     \<Rightarrow> (Route option \<times> aco_state) option" where
  "findRoute rnd nodes source destination priority st =
     (if priority = Critical
      then map_option (\<lambda>r. (r, st)) (findShortestPath nodes source destination)
      else Some (findOptimalPath rnd nodes source destination priority st))"

definition findAllRoutes ::
  "(nat \<Rightarrow> real) \<Rightarrow> Node list \<Rightarrow> string \<Rightarrow> string \<Rightarrow> aco_state
     \<Rightarrow> (Route list \<times> aco_state) option" where
  "findAllRoutes rnd nodes source destination st =
     (case findShortestPath nodes source destination of
        None \<Rightarrow> None
      | Some dijkstraRoute \<Rightarrow>
          let routes = (case dijkstraRoute of
                          None \<Rightarrow> []
                        | Some r \<Rightarrow> [r\<lparr>reliability := 0.95\<rparr>])
          in case findOptimalPath rnd nodes source destination Critical st of
               (acoCritical, st') \<Rightarrow>
                 Some (routes @ (case acoCritical of None \<Rightarrow> [] | Some r \<Rightarrow> [r]), st'))"

section \<open>MeshNetwork\<close>

text \<open>The constants of \<open>NODE_CONFIG\<close> that the class reads.\<close>

definition MAX_CONNECTIONS :: nat where "MAX_CONNECTIONS = 8"
definition MIN_CONNECTIONS :: nat where "MIN_CONNECTIONS = 2"
definition MAX_RANGE :: real where "MAX_RANGE = 500"

text \<open>
  The state of the class: the Map \<open>nodes\<close> and the array \<open>connections\<close>. A Map is
  iterated in the order its keys were inserted, and \<open>healNetwork\<close> and
  \<open>findNearbyNodes\<close> depend on that order, so the Map is the list of its values in
  insertion order; the key of a value is its \<open>id\<close>, as \<open>createNode\<close> stores it.

  Node objects are mutable and shared. The model follows the objects that are in the Map
  and finds the object of a reference by its id: \<open>modify_node k f\<close> is an assignment
  to fields of the object stored under \<open>k\<close>. The fields \<open>id\<close>, \<open>x\<close> and \<open>y\<close>,
  which no method changes, are read from the node value a method is given. A node value
  whose id is not in the Map stands for an object outside the Map (a node that was
  removed); the adjacency array of such an object is not part of the state.

  The class has no \<open>throw\<close> and calls nothing that throws, so no operation has an
  error result.
\<close>

record mesh =
  mesh_nodes :: "Node list"
  mesh_connections :: "Connection list"

definition nodes_get :: "mesh \<Rightarrow> string \<Rightarrow> Node option" where
  "nodes_get s k = find_node (mesh_nodes s) k"

definition nodes_set :: "Node \<Rightarrow> Node list \<Rightarrow> Node list" where
  "nodes_set node ns =
     (if node_id node \<in> node_id ` set ns
      then map (\<lambda>n. if node_id n = node_id node then node else n) ns
      else ns @ [node])"

definition modify_node :: "string \<Rightarrow> (Node \<Rightarrow> Node) \<Rightarrow> mesh \<Rightarrow> mesh" where
  "modify_node k f s =
     s\<lparr>mesh_nodes := map (\<lambda>n. if node_id n = k then f n else n) (mesh_nodes s)\<rparr>"

text \<open>\<open>node.connections\<close> as it stands in state \<open>s\<close>.\<close>

definition connections_of :: "mesh \<Rightarrow> Node \<Rightarrow> string list" where
  "connections_of s node =
     (case nodes_get s (node_id node) of
        Some n \<Rightarrow> connections n
      | None \<Rightarrow> connections node)"

definition calculateDistance :: "Node \<Rightarrow> Node \<Rightarrow> real" where
  "calculateDistance a b = sqrt ((node_x b - node_x a)\<^sup>2 + (node_y b - node_y a)\<^sup>2)"

text \<open>\<open>Array.prototype.sort\<close> is stable, as \<open>sort_key\<close> is.\<close>

definition findNearbyNodes :: "mesh \<Rightarrow> Node \<Rightarrow> real \<Rightarrow> Node list" where
  "findNearbyNodes s node maxRange =
     map fst
       (sort_key snd
          (filter (\<lambda>(n, distance). distance \<le> maxRange)
             (map (\<lambda>n. (n, calculateDistance node n))
                (filter (\<lambda>n. node_id n \<noteq> node_id node) (mesh_nodes s)))))"

definition establishConnection :: "mesh \<Rightarrow> Node \<Rightarrow> Node \<Rightarrow> Connection \<times> mesh" where
  "establishConnection s a b =
     (let distance = calculateDistance a b;
          connection = \<lparr>conn_nodeA = node_id a,
                        conn_nodeB = node_id b,
                        strength = max 0 (100 - (distance / MAX_RANGE * 50)),
                        conn_latency = 10 + (distance / 10),
                        active = True\<rparr>;
          s1 = modify_node (node_id a) (\<lambda>n. n\<lparr>connections := connections n @ [node_id b]\<rparr>) s;
          s2 = modify_node (node_id b) (\<lambda>n. n\<lparr>connections := connections n @ [node_id a]\<rparr>) s1
      in (connection, s2\<lparr>mesh_connections := mesh_connections s2 @ [connection]\<rparr>))"

definition discoverConnections :: "mesh \<Rightarrow> Node \<Rightarrow> mesh" where
  "discoverConnections s node =
     fold (\<lambda>nearbyNode s.
             if node_id nearbyNode \<notin> set (connections_of s node)
             then snd (establishConnection s node nearbyNode)
             else s)
          (take MAX_CONNECTIONS (findNearbyNodes s node MAX_RANGE)) s"

text \<open>
  \<open>createNode\<close>. What the environment supplies is a parameter: the id
  \<open>CryptoUtils.generateId()\<close> returns, the time \<open>new Date()\<close> returns and the
  address \<open>generateIpAddress()\<close> returns. The result is the new state; the object the
  method returns is the one stored under \<open>newId\<close>.
\<close>

definition createNode ::
  "mesh \<Rightarrow> string \<Rightarrow> nat \<Rightarrow> string \<Rightarrow> string \<Rightarrow> real \<Rightarrow> real \<Rightarrow> mesh" where
  "createNode s newId now ip name x y =
     (let node = \<lparr>node_id = newId, node_name = name, node_x = x, node_y = y,
                  status = Online, battery = 100, signalStrength = 100,
                  connections = [], lastSeen = now, messageCount = 0, ipAddress = ip\<rparr>;
          s1 = s\<lparr>mesh_nodes := nodes_set node (mesh_nodes s)\<rparr>
      in discoverConnections s1 node)"

definition removeNode :: "mesh \<Rightarrow> string \<Rightarrow> mesh" where
  "removeNode s nodeId =
     (case nodes_get s nodeId of
        None \<Rightarrow> s
      | Some node \<Rightarrow>
          let s1 = fold (\<lambda>connId s.
                      case nodes_get s connId of
                        None \<Rightarrow> s
                      | Some connectedNode \<Rightarrow>
                          modify_node connId
                            (\<lambda>n. n\<lparr>connections := filter (\<lambda>i. i \<noteq> nodeId) (connections n)\<rparr>) s)
                    (connections node) s
          in s1\<lparr>mesh_connections :=
                   filter (\<lambda>c. conn_nodeA c \<noteq> nodeId \<and> conn_nodeB c \<noteq> nodeId)
                     (mesh_connections s1),
                 mesh_nodes := filter (\<lambda>n. node_id n \<noteq> nodeId) (mesh_nodes s1)\<rparr>)"

definition updateNodeStatus :: "mesh \<Rightarrow> string \<Rightarrow> Status \<Rightarrow> nat \<Rightarrow> mesh" where
  "updateNodeStatus s nodeId newStatus now =
     (case nodes_get s nodeId of
        None \<Rightarrow> s
      | Some node \<Rightarrow> modify_node nodeId (\<lambda>n. n\<lparr>status := newStatus, lastSeen := now\<rparr>) s)"

text \<open>
  \<open>healNetwork\<close>: the body of \<open>this.nodes.forEach\<close> for the node under key \<open>k\<close>, and
  the loop over the keys. The loop neither adds nor deletes a key.
\<close>

definition heal_node :: "string \<Rightarrow> mesh \<Rightarrow> mesh" where
  "heal_node k s =
     (case nodes_get s k of
        None \<Rightarrow> s
      | Some node \<Rightarrow>
          let s1 = (if length (connections node) < MIN_CONNECTIONS \<and> status node = Online
                    then discoverConnections s node else s)
          in modify_node k
               (\<lambda>n. n\<lparr>connections :=
                        filter (\<lambda>connId. case nodes_get s1 connId of
                                           None \<Rightarrow> False
                                         | Some connectedNode \<Rightarrow> status connectedNode = Online)
                               (connections n)\<rparr>) s1)"

definition healNetwork :: "mesh \<Rightarrow> mesh" where
  "healNetwork s = fold heal_node (map node_id (mesh_nodes s)) s"

definition simulateFailure :: "mesh \<Rightarrow> string \<Rightarrow> nat \<Rightarrow> mesh" where
  "simulateFailure s nodeId now = healNetwork (updateNodeStatus s nodeId Offline now)"

definition simulateRecovery :: "mesh \<Rightarrow> string \<Rightarrow> mesh" where
  "simulateRecovery s nodeId =
     (case nodes_get s nodeId of
        None \<Rightarrow> s
      | Some node \<Rightarrow>
          discoverConnections (modify_node nodeId (\<lambda>n. n\<lparr>status := Online\<rparr>) s)
            (node\<lparr>status := Online\<rparr>))"

definition empty_mesh :: mesh where
  "empty_mesh = \<lparr>mesh_nodes = [], mesh_connections = []\<rparr>"

section \<open>Properties of the ant-colony loops\<close>

text \<open>An invariant of the traversal loop holds of what the loop returns.\<close>

lemma antTraverse_loop_invariant:
  assumes init: "I path visited c t st"
    and sel: "\<And>path visited c t st cur r st'.
        I path visited c t st \<Longrightarrow> c \<noteq> d \<Longrightarrow> find_node nodes c = Some cur \<Longrightarrow>
        selectNextNode rnd st cur (available nodes visited cur) nodes d = (r, st') \<Longrightarrow>
        I path visited c t st'"
    and step: "\<And>path visited c t st cur nextId nextNode.
        I path visited c t st \<Longrightarrow> c \<noteq> d \<Longrightarrow> find_node nodes c = Some cur \<Longrightarrow>
        find_node nodes nextId = Some nextNode \<Longrightarrow>
        I (path @ [nextId]) (insert nextId visited) nextId
          (t + euclid cur nextNode * priorityModifier p) st"
  shows "case antTraverse_loop rnd nodes d p (path, visited, c, t, st) of
           (path', c', t', st') \<Rightarrow> \<exists>visited'. I path' visited' c' t' st'"
proof -
  have sel': "\<forall>path visited c t st cur r st'.
        I path visited c t st \<and> c \<noteq> d \<and> find_node nodes c = Some cur \<and>
        selectNextNode rnd st cur (available nodes visited cur) nodes d = (r, st') \<longrightarrow>
        I path visited c t st'"
    using sel by blast
  have step': "\<forall>path visited c t st cur nextId nextNode.
        I path visited c t st \<and> c \<noteq> d \<and> find_node nodes c = Some cur \<and>
        find_node nodes nextId = Some nextNode \<longrightarrow>
        I (path @ [nextId]) (insert nextId visited) nextId
          (t + euclid cur nextNode * priorityModifier p) st"
    using step by blast
  from init sel' step' show ?thesis
  proof (induction rnd nodes d p "(path, visited, c, t, st)" arbitrary: path visited c t st
       rule: antTraverse_loop.induct)
  case (1 rnd nodes d p path visited c t st)
  note inv = "1.prems"(1)
  show ?case
  proof (cases "c = d")
    case True
    with inv show ?thesis by (subst antTraverse_loop.simps) auto
  next
    case cd: False
    show ?thesis
    proof (cases "find_node nodes c")
      case None
      with inv cd show ?thesis by (subst antTraverse_loop.simps) auto
    next
      case (Some cur)
      show ?thesis
      proof (cases "available nodes visited cur = []")
        case True
        with inv cd Some show ?thesis by (subst antTraverse_loop.simps) auto
      next
        case av: False
        obtain r st' where s: "selectNextNode rnd st cur (available nodes visited cur) nodes d = (r, st')"
          by (cases "selectNextNode rnd st cur (available nodes visited cur) nodes d")
        have inv': "I path visited c t st'" using "1.prems"(2) inv cd Some s by blast
        show ?thesis
        proof (cases r)
          case None
          with inv' cd Some av s show ?thesis by (subst antTraverse_loop.simps) auto
        next
          case r: (Some nextId)
          show ?thesis
          proof (cases "nextId = [] \<or> find_node nodes nextId = None")
            case True
            with inv' cd Some av s r show ?thesis
              by (subst antTraverse_loop.simps) auto
          next
            case False
            then obtain nextNode where nn: "find_node nodes nextId = Some nextNode"
              and ne: "nextId \<noteq> []" by auto
            have inv'': "I (path @ [nextId]) (insert nextId visited) nextId
                (t + euclid cur nextNode * priorityModifier p) st'"
              using "1.prems"(3) inv' cd Some nn by blast
            have "case antTraverse_loop rnd nodes d p
                    (path @ [nextId], insert nextId visited, nextId,
                     t + euclid cur nextNode * priorityModifier p, st') of
                    (path', c', t', st') \<Rightarrow> \<exists>visited'. I path' visited' c' t' st'"
              using "1.hyps" [OF cd Some av s [symmetric] r ne nn inv'' "1.prems"(2,3)] 
              by blast
            with cd Some av s r ne nn show ?thesis
              by (subst antTraverse_loop.simps) simp
          qed
        qed
      qed
    qed
  qed
qed
qed


lemma antTraverse_loop_pheromones:
  "pheromones (snd (snd (snd (antTraverse_loop rnd nodes d p (path, visited, c, t, st)))))
     = pheromones st"
proof -
  define I where "I = (\<lambda>(path :: string list) (visited :: string set) (c :: string) (t :: real) (st' :: aco_state).
                         pheromones st' = pheromones st)"
  have "case antTraverse_loop rnd nodes d p (path, visited, c, t, st) of
          (path', c', t', st') \<Rightarrow> \<exists>visited'. I path' visited' c' t' st'"
  proof (rule antTraverse_loop_invariant [where I = I])
    show "I path visited c t st" by (simp add: I_def)
  next
    fix path visited c t st0 cur r st'
    assume "I path visited c t st0"
      and "selectNextNode rnd st0 cur (available nodes visited cur) nodes d = (r, st')"
    then show "I path visited c t st'"
      using selectNextNode_pheromones [of rnd st0 cur "available nodes visited cur" nodes d]
      by (simp add: I_def)
  next
    fix path visited c t st0 cur nextId nextNode
    assume "I path visited c t st0"
    then show "I (path @ [nextId]) (insert nextId visited) nextId
                 (t + euclid cur nextNode * priorityModifier p) st0"
      by (simp add: I_def)
  qed
  then show ?thesis by (auto simp: I_def split: prod.splits)
qed

lemma antTraverse_loop_current:
  assumes "c \<noteq> d" "c \<notin> node_id ` set nodes \<or> d \<notin> node_id ` set nodes"
  shows "fst (snd (antTraverse_loop rnd nodes d p (path, visited, c, t, st))) \<noteq> d"
proof -
  define I where "I = (\<lambda>(path :: string list) (visited :: string set) c (t :: real) (st :: aco_state).
                         c \<noteq> d \<and> (c \<notin> node_id ` set nodes \<or> d \<notin> node_id ` set nodes))"
  have "case antTraverse_loop rnd nodes d p (path, visited, c, t, st) of
          (path', c', t', st') \<Rightarrow> \<exists>visited'. I path' visited' c' t' st'"
  proof (rule antTraverse_loop_invariant [where I = I])
    show "I path visited c t st" using assms by (simp add: I_def)
  next
    fix path visited c t st0 cur r st'
    assume "I path visited c t st0"
    then show "I path visited c t st'" by (simp add: I_def)
  next
    fix path visited c t st0 cur nextId nextNode
    assume "I path visited c t st0" and "find_node nodes c = Some cur"
      and "find_node nodes nextId = Some nextNode"
    then show "I (path @ [nextId]) (insert nextId visited) nextId
                 (t + euclid cur nextNode * priorityModifier p) st0"
      by (auto simp: I_def dest: find_node_Some_id)
  qed
  then show ?thesis by (auto simp: I_def split: prod.splits)
qed

lemma antTraverse_pheromones:
  "pheromones (snd (antTraverse rnd nodes s d p st)) = pheromones st"
  using antTraverse_loop_pheromones [of rnd nodes d p "[s]" "{s}" s 0 st]
  by (auto simp: antTraverse_def split: prod.splits)

lemma antTraverse_unknown:
  assumes "s \<noteq> d" "s \<notin> node_id ` set nodes \<or> d \<notin> node_id ` set nodes"
  shows "fst (antTraverse rnd nodes s d p st) = None"
  using antTraverse_loop_current [OF assms, of rnd p "[s]" "{s}" 0 st]
  by (auto simp: antTraverse_def split: prod.splits)

lemma antTraverse_reliability:
  "fst (antTraverse rnd nodes s d p st) = Some r \<Longrightarrow> reliability r = 0.9"
  by (auto simp: antTraverse_def split: prod.splits if_splits)

lemma antTraverse_same:
  "antTraverse rnd nodes s s p st =
     (Some \<lparr>route_source = s, route_destination = s, route_path = [s], cost = Num 0,
            latency = 15, reliability = 0.9\<rparr>, st)"
  by (simp add: antTraverse_def antTraverse_loop.simps)

text \<open>What the two loops keep.\<close>

lemma deployAnts_best:
  assumes "P best"
    and "\<And>st r. fst (antTraverse rnd nodes s d p st) = Some r \<Longrightarrow> P (Some r)"
  shows "P (fst (snd (deployAnts n rnd nodes s d p (routes, best, bc, st))))"
  using assms(1)
proof (induction n arbitrary: routes best bc st)
  case 0
  then show ?case by simp
next
  case (Suc n)
  obtain r st' where a: "antTraverse rnd nodes s d p st = (r, st')"
    by (cases "antTraverse rnd nodes s d p st")
  show ?case
  proof (cases r)
    case None
    with a Suc show ?thesis by simp
  next
    case (Some route)
    with a assms(2) [of st route] have "P (Some route)" by simp
    with a Some Suc show ?thesis by simp
  qed
qed

lemma iterations_best:
  assumes "P best"
    and "\<And>st r. fst (antTraverse rnd nodes s d p st) = Some r \<Longrightarrow> P (Some r)"
  shows "P (fst (iterations n rnd nodes s d p (best, bc, st)))"
  using assms(1)
proof (induction n arbitrary: best bc st)
  case 0
  then show ?case by simp
next
  case (Suc n)
  obtain routes b c st' where
    dep: "deployAnts ANT_COUNT rnd nodes s d p ([], best, bc, st) = (routes, b, c, st')"
    by (cases "deployAnts ANT_COUNT rnd nodes s d p ([], best, bc, st)") auto
  have "P b"
    using deployAnts_best [of P best rnd nodes s d p ANT_COUNT "[]" bc st, OF Suc.prems assms(2)]
    by (simp add: dep)
  then show ?case using Suc.IH by (simp add: dep)
qed

lemma findOptimalPath_best:
  assumes "P None"
    and "\<And>st r. fst (antTraverse rnd nodes s d p st) = Some r \<Longrightarrow> P (Some r)"
  shows "P (fst (findOptimalPath rnd nodes s d p st))"
proof -
  have "P (fst (iterations ACO_ITERATIONS rnd nodes s d p
                  (None, PInf, pheromones_at_start nodes st)))"
    by (rule iterations_best [where P = P]) (fact assms)+
  then show ?thesis by (auto simp: findOptimalPath_def split: prod.splits)
qed

lemma findOptimalPath_unknown:
  assumes "s \<noteq> d" "s \<notin> node_id ` set nodes \<or> d \<notin> node_id ` set nodes"
  shows "fst (findOptimalPath rnd nodes s d p st) = None"
  by (rule findOptimalPath_best [where P = "\<lambda>b. b = None"])
     (simp_all add: antTraverse_unknown [OF assms])

lemma findOptimalPath_reliability:
  "fst (findOptimalPath rnd nodes s d p st) = Some r \<Longrightarrow> reliability r = 0.9"
  using findOptimalPath_best [where P = "\<lambda>b. \<forall>r. b = Some r \<longrightarrow> reliability r = 0.9"
      and rnd = rnd and nodes = nodes and s = s and d = d and p = p and st = st]
    antTraverse_reliability [of rnd nodes s d p]
  by auto

text \<open>
  The route \<open>antTraverse\<close> returns when the source is the destination: the loop is
  not entered.
\<close>

definition single_route :: "string \<Rightarrow> Route" where
  "single_route s = \<lparr>route_source = s, route_destination = s, route_path = [s], cost = Num 0,
            latency = 15, reliability = 0.9\<rparr>"

lemma deployAnts_same:
  assumes "(best = None \<and> bc = PInf) \<or> (best = Some (single_route s) \<and> bc = Num 0)"
  shows "deployAnts n rnd nodes s s p (routes, best, bc, st) =
           (routes @ replicate n (single_route s),
            if n = 0 then best else Some (single_route s),
            if n = 0 then bc else Num 0, st)"
  using assms
proof (induction n arbitrary: routes best bc)
  case 0
  then show ?case by simp
next
  case (Suc n)
  have "deployAnts (Suc n) rnd nodes s s p (routes, best, bc, st) =
          deployAnts n rnd nodes s s p (routes @ [single_route s], Some (single_route s), Num 0, st)"
    using Suc.prems by (auto simp: antTraverse_same single_route_def)
  also have "\<dots> = ((routes @ [single_route s]) @ replicate n (single_route s),
            if n = 0 then Some (single_route s) else Some (single_route s),
            if n = 0 then Num 0 else Num 0, st)"
    by (rule Suc.IH) simp
  finally show ?case by (simp add: replicate_app_Cons_same)
qed

lemma iterations_same_found:
  "fst (iterations n rnd nodes s s p (Some (single_route s), Num 0, st)) = Some (single_route s)"
proof (induction n arbitrary: st)
  case 0
  then show ?case by simp
next
  case (Suc n)
  show ?case
    by (simp add: deployAnts_same Suc.IH)
qed

lemma findOptimalPath_same:
  "fst (findOptimalPath rnd nodes s s p st) = Some (single_route s)"
proof -
  obtain n where n: "ACO_ITERATIONS = Suc n" by (simp add: ACO_ITERATIONS_def)
  have "ANT_COUNT \<noteq> 0" by (simp add: ANT_COUNT_def)
  then have "fst (iterations (Suc n) rnd nodes s s p (None, PInf, pheromones_at_start nodes st))
      = Some (single_route s)"
    by (simp add: deployAnts_same iterations_same_found)
  then show ?thesis
    by (auto simp: findOptimalPath_def n split: prod.splits)
qed

text \<open>The pheromone map: what initialisation writes, and that no key is ever removed.\<close>

lemma initializePheromones_inner:
  "fold (\<lambda>b ph. ph(getEdgeKey i b \<mapsto> v)) bs ph key =
     (if key \<in> getEdgeKey i ` set bs then Some v else ph key)"
  by (induction bs arbitrary: ph) auto

lemma initializePheromones_apply:
  "initializePheromones nodes ph key =
     (if key \<in> edgeKeys nodes then Some PHEROMONE_INITIAL else ph key)"
  unfolding initializePheromones_def edgeKeys_def
  by (induction nodes arbitrary: ph) (auto simp: initializePheromones_inner)

lemma dom_evaporatePheromones: "dom (evaporatePheromones ph) = dom ph"
  by (auto simp: evaporatePheromones_def dom_def)

lemma deposit_loop_step:
  "deposit_loop (a # b # rest) deposit ph =
     deposit_loop (b # rest) deposit
       (ph(getEdgeKey a b \<mapsto> nadd (or_number (ph (getEdgeKey a b)) (Num 0)) deposit))"
  by (simp add: Let_def)

lemma dom_deposit_loop: "dom ph \<subseteq> dom (deposit_loop path deposit ph)"
proof (induction path deposit ph rule: deposit_loop.induct)
  case (1 a b rest deposit ph)
  let ?ph = "ph(getEdgeKey a b \<mapsto> nadd (or_number (ph (getEdgeKey a b)) (Num 0)) deposit)"
  have "dom ph \<subseteq> dom ?ph" by auto
  also have "\<dots> \<subseteq> dom (deposit_loop (b # rest) deposit ?ph)"
    using "1.IH" [unfolded Let_def] .
  finally show ?case by (simp only: deposit_loop_step)
qed simp_all

lemma dom_depositPheromones: "dom ph \<subseteq> dom (depositPheromones route priority ph)"
  by (simp add: depositPheromones_def Let_def dom_deposit_loop)

lemma dom_fold_depositPheromones:
  "dom ph \<subseteq> dom (fold (\<lambda>route ph. depositPheromones route priority ph) routes ph)"
proof (induction routes arbitrary: ph)
  case Nil
  then show ?case by simp
next
  case (Cons r routes)
  have "dom ph \<subseteq> dom (depositPheromones r priority ph)" by (rule dom_depositPheromones)
  also have "\<dots> \<subseteq> dom (fold (\<lambda>route ph. depositPheromones route priority ph) routes
                          (depositPheromones r priority ph))" by (rule Cons.IH)
  finally show ?case by simp
qed

lemma deployAnts_pheromones:
  "pheromones (snd (snd (snd (deployAnts n rnd nodes s d p (routes, best, bc, st)))))
     = pheromones st"
proof (induction n arbitrary: routes best bc st)
  case 0
  then show ?case by simp
next
  case (Suc n)
  obtain r st' where a: "antTraverse rnd nodes s d p st = (r, st')"
    by (cases "antTraverse rnd nodes s d p st")
  have "pheromones st' = pheromones st"
    using antTraverse_pheromones [of rnd nodes s d p st] by (simp add: a)
  then show ?case using Suc.IH by (cases r) (simp_all add: a)
qed

lemma iterations_dom:
  "dom (pheromones st)
     \<subseteq> dom (pheromones (snd (snd (iterations n rnd nodes s d p (best, bc, st)))))"
proof (induction n arbitrary: best bc st)
  case 0
  then show ?case by simp
next
  case (Suc n)
  obtain routes b c st' where
    dep: "deployAnts ANT_COUNT rnd nodes s d p ([], best, bc, st) = (routes, b, c, st')"
    by (cases "deployAnts ANT_COUNT rnd nodes s d p ([], best, bc, st)") auto
  have same: "pheromones st' = pheromones st"
    using deployAnts_pheromones [of ANT_COUNT rnd nodes s d p "[]" best bc st] by (simp add: dep)
  let ?ph = "fold (\<lambda>route ph. depositPheromones route p ph) routes
               (evaporatePheromones (pheromones st'))"
  have "dom (pheromones st) \<subseteq> dom ?ph"
    using dom_fold_depositPheromones [of "evaporatePheromones (pheromones st')" p routes]
    by (simp add: dom_evaporatePheromones same)
  also have "\<dots> \<subseteq> dom (pheromones (snd (snd (iterations n rnd nodes s d p
                  (b, c, st'\<lparr>pheromones := ?ph\<rparr>)))))"
    using Suc.IH [of "st'\<lparr>pheromones := ?ph\<rparr>" b c] by simp
  finally show ?case by (simp add: dep)
qed

lemma findOptimalPath_keeps_keys:
  "dom (pheromones (pheromones_at_start nodes st))
     \<subseteq> dom (pheromones (snd (findOptimalPath rnd nodes s d p st)))"
  using iterations_dom [of "pheromones_at_start nodes st" ACO_ITERATIONS rnd nodes s d p None PInf]
  by (auto simp: findOptimalPath_def split: prod.splits)

text \<open>
  Entries left in the map by earlier calls are never read. Two maps agree on a set of
  keys when they have the same entry at each key of the set. A call reads the map only
  at edge keys of its node list, so two runs whose maps agree there take the same steps.
\<close>

definition agree_on :: "string set \<Rightarrow> (string \<rightharpoonup> number) \<Rightarrow> (string \<rightharpoonup> number) \<Rightarrow> bool" where
  "agree_on K ph1 ph2 = (\<forall>k \<in> K. ph1 k = ph2 k)"

lemma find_node_Some_mem: "find_node nodes k = Some n \<Longrightarrow> n \<in> set nodes"
  by (auto simp: find_node_def find_Some_iff)

lemma edgeKeys_mem:
  "cur \<in> set nodes \<Longrightarrow> nb \<in> set (connections cur) \<Longrightarrow>
   getEdgeKey (node_id cur) nb \<in> edgeKeys nodes"
  by (auto simp: edgeKeys_def)

lemma weights_agree:
  assumes "cur \<in> set nodes" "set neighbors \<subseteq> set (connections cur)"
    and "agree_on (edgeKeys nodes) ph1 ph2"
  shows "weights ph1 cur neighbors nodes dest = weights ph2 cur neighbors nodes dest"
  unfolding weights_def
proof (rule fold_cong [OF refl refl])
  fix nb assume "nb \<in> set neighbors"
  then have "getEdgeKey (node_id cur) nb \<in> edgeKeys nodes"
    using assms(1,2) by (auto intro: edgeKeys_mem)
  then have "ph1 (getEdgeKey (node_id cur) nb) = ph2 (getEdgeKey (node_id cur) nb)"
    using assms(3) by (simp add: agree_on_def)
  then show "(\<lambda>(probabilities, totalWeight).
             case find_node nodes nb of
               None \<Rightarrow> (probabilities, totalWeight)
             | Some neighbor \<Rightarrow>
                 let edgeKey = getEdgeKey (node_id cur) nb;
                     pheromone = or_number (ph1 edgeKey) PHEROMONE_INITIAL;
                     heuristic = (case find_node nodes dest of
                                    Some destNode \<Rightarrow> 1 / (1 + euclid neighbor destNode)
                                  | None \<Rightarrow> 1);
                     v = nmul (Math_pow pheromone ALPHA) (Math_pow (Num heuristic) BETA)
                 in (probabilities @ [(nb, v)], nadd totalWeight v)) =
        (\<lambda>(probabilities, totalWeight).
             case find_node nodes nb of
               None \<Rightarrow> (probabilities, totalWeight)
             | Some neighbor \<Rightarrow>
                 let edgeKey = getEdgeKey (node_id cur) nb;
                     pheromone = or_number (ph2 edgeKey) PHEROMONE_INITIAL;
                     heuristic = (case find_node nodes dest of
                                    Some destNode \<Rightarrow> 1 / (1 + euclid neighbor destNode)
                                  | None \<Rightarrow> 1);
                     v = nmul (Math_pow pheromone ALPHA) (Math_pow (Num heuristic) BETA)
                 in (probabilities @ [(nb, v)], nadd totalWeight v))"
    unfolding Let_def by (auto simp: fun_eq_iff split: option.splits)
qed

lemma available_subset: "set (available nodes visited cur) \<subseteq> set (connections cur)"
  by (auto simp: available_def)

lemma selectNextNode_draws_only:
  "selectNextNode rnd st cur neighbors nodes dest =
     (fst (selectNextNode rnd st cur neighbors nodes dest),
      st\<lparr>draws := draws (snd (selectNextNode rnd st cur neighbors nodes dest))\<rparr>)"
  by (simp add: selectNextNode_def Let_def split: prod.splits)

lemma selectNextNode_agree:
  assumes "cur \<in> set nodes" "set neighbors \<subseteq> set (connections cur)"
    and "agree_on (edgeKeys nodes) (pheromones st1) (pheromones st2)"
    and "draws st1 = draws st2"
  shows "fst (selectNextNode rnd st1 cur neighbors nodes dest)
           = fst (selectNextNode rnd st2 cur neighbors nodes dest) \<and>
         draws (snd (selectNextNode rnd st1 cur neighbors nodes dest))
           = draws (snd (selectNextNode rnd st2 cur neighbors nodes dest))"
  using weights_agree [OF assms(1-3), of dest] assms(4)
  by (simp add: selectNextNode_def Let_def split: prod.splits)

text \<open>Two runs of the traversal loop from states that agree on the edge keys.\<close>

definition same_walk ::
  "string list \<times> string \<times> real \<times> aco_state \<Rightarrow> string list \<times> string \<times> real \<times> aco_state \<Rightarrow> bool" where
  "same_walk r1 r2 =
     (fst r1 = fst r2 \<and> fst (snd r1) = fst (snd r2) \<and> fst (snd (snd r1)) = fst (snd (snd r2)) \<and>
      draws (snd (snd (snd r1))) = draws (snd (snd (snd r2))))"

lemma antTraverse_loop_agree:
  assumes "agree_on (edgeKeys nodes) (pheromones st1) (pheromones st2)" "draws st1 = draws st2"
  shows "same_walk (antTraverse_loop rnd nodes d p (path, visited, c, t, st1))
                   (antTraverse_loop rnd nodes d p (path, visited, c, t, st2))"
  using assms
proof (induction rnd nodes d p "(path, visited, c, t, st1)" arbitrary: path visited c t st1 st2
       rule: antTraverse_loop.induct)
  case (1 rnd nodes d p path visited c t st1)
  note ag = "1.prems"(1) and dr = "1.prems"(2)
  show ?case
  proof (cases "c = d")
    case True
    with dr show ?thesis
      by (subst (1 2) antTraverse_loop.simps) (simp add: same_walk_def)
  next
    case cd: False
    show ?thesis
    proof (cases "find_node nodes c")
      case None
      with cd dr show ?thesis
        by (subst (1 2) antTraverse_loop.simps) (simp add: same_walk_def)
    next
      case (Some cur)
      show ?thesis
      proof (cases "available nodes visited cur = []")
        case True
        with cd Some dr show ?thesis
          by (subst (1 2) antTraverse_loop.simps) (simp add: same_walk_def)
      next
        case av: False
        obtain r st1' where s1: "selectNextNode rnd st1 cur (available nodes visited cur) nodes d = (r, st1')"
          by (cases "selectNextNode rnd st1 cur (available nodes visited cur) nodes d")
        obtain r2 st2' where s2: "selectNextNode rnd st2 cur (available nodes visited cur) nodes d = (r2, st2')"
          by (cases "selectNextNode rnd st2 cur (available nodes visited cur) nodes d")
        have cur: "cur \<in> set nodes" using Some by (rule find_node_Some_mem)
        have rr: "r2 = r" and dr': "draws st1' = draws st2'"
          using selectNextNode_agree [OF cur available_subset [of nodes visited cur] ag dr,
              of rnd d]
          by (simp_all add: s1 s2)
        have ph1: "pheromones st1' = pheromones st1"
          using selectNextNode_pheromones [of rnd st1 cur "available nodes visited cur" nodes d]
          by (simp add: s1)
        have ph2: "pheromones st2' = pheromones st2"
          using selectNextNode_pheromones [of rnd st2 cur "available nodes visited cur" nodes d]
          by (simp add: s2)
        have ag': "agree_on (edgeKeys nodes) (pheromones st1') (pheromones st2')"
          using ag by (simp add: ph1 ph2)
        show ?thesis
        proof (cases r)
          case None
          with cd Some av s1 s2 rr dr' show ?thesis
            by (subst (1 2) antTraverse_loop.simps) (simp add: same_walk_def)
        next
          case r: (Some nextId)
          show ?thesis
          proof (cases "nextId = [] \<or> find_node nodes nextId = None")
            case True
            with cd Some av s1 s2 rr dr' r show ?thesis
              by (subst (1 2) antTraverse_loop.simps) (auto simp: same_walk_def)
          next
            case False
            then obtain nextNode where nn: "find_node nodes nextId = Some nextNode"
              and ne: "nextId \<noteq> []" by auto
            have "same_walk
                    (antTraverse_loop rnd nodes d p
                      (path @ [nextId], insert nextId visited, nextId,
                       t + euclid cur nextNode * priorityModifier p, st1'))
                    (antTraverse_loop rnd nodes d p
                      (path @ [nextId], insert nextId visited, nextId,
                       t + euclid cur nextNode * priorityModifier p, st2'))"
              using "1.hyps" [OF cd Some av s1 [symmetric] r ne nn ag' dr'] .
            with cd Some av s1 s2 rr r ne nn show ?thesis
              by (subst (1 2) antTraverse_loop.simps) simp
          qed
        qed
      qed
    qed
  qed
qed


lemma antTraverse_agree:
  assumes "agree_on (edgeKeys nodes) (pheromones st1) (pheromones st2)" "draws st1 = draws st2"
  shows "fst (antTraverse rnd nodes s d p st1) = fst (antTraverse rnd nodes s d p st2) \<and>
         draws (snd (antTraverse rnd nodes s d p st1))
           = draws (snd (antTraverse rnd nodes s d p st2))"
  using antTraverse_loop_agree [OF assms, of rnd d p "[s]" "{s}" s 0]
  by (auto simp: antTraverse_def same_walk_def split: prod.splits)

lemma deployAnts_agree:
  assumes "agree_on (edgeKeys nodes) (pheromones st1) (pheromones st2)" "draws st1 = draws st2"
  shows "fst (deployAnts n rnd nodes s d p (routes, best, bc, st1))
           = fst (deployAnts n rnd nodes s d p (routes, best, bc, st2)) \<and>
         fst (snd (deployAnts n rnd nodes s d p (routes, best, bc, st1)))
           = fst (snd (deployAnts n rnd nodes s d p (routes, best, bc, st2))) \<and>
         fst (snd (snd (deployAnts n rnd nodes s d p (routes, best, bc, st1))))
           = fst (snd (snd (deployAnts n rnd nodes s d p (routes, best, bc, st2)))) \<and>
         draws (snd (snd (snd (deployAnts n rnd nodes s d p (routes, best, bc, st1)))))
           = draws (snd (snd (snd (deployAnts n rnd nodes s d p (routes, best, bc, st2)))))"
  using assms
proof (induction n arbitrary: routes best bc st1 st2)
  case 0
  then show ?case by simp
next
  case (Suc n)
  obtain r1 st1' where a1: "antTraverse rnd nodes s d p st1 = (r1, st1')"
    by (cases "antTraverse rnd nodes s d p st1")
  obtain r2 st2' where a2: "antTraverse rnd nodes s d p st2 = (r2, st2')"
    by (cases "antTraverse rnd nodes s d p st2")
  have rr: "r2 = r1" and dr: "draws st1' = draws st2'"
    using antTraverse_agree [OF Suc.prems, of rnd s d p] by (simp_all add: a1 a2)
  have "pheromones st1' = pheromones st1" "pheromones st2' = pheromones st2"
    using antTraverse_pheromones [of rnd nodes s d p st1]
      antTraverse_pheromones [of rnd nodes s d p st2] by (simp_all add: a1 a2)
  then have ag: "agree_on (edgeKeys nodes) (pheromones st1') (pheromones st2')"
    using Suc.prems(1) by simp
  show ?case
  proof (cases r1)
    case None
    then show ?thesis using Suc.IH [OF ag dr] by (simp add: a1 a2 rr)
  next
    case (Some route)
    then show ?thesis using Suc.IH [OF ag dr] by (simp add: a1 a2 rr)
  qed
qed

lemma agree_on_evaporatePheromones:
  "agree_on K ph1 ph2 \<Longrightarrow> agree_on K (evaporatePheromones ph1) (evaporatePheromones ph2)"
  by (simp add: agree_on_def evaporatePheromones_def)

lemma agree_on_deposit_loop:
  "agree_on K ph1 ph2 \<Longrightarrow>
   agree_on K (deposit_loop path deposit ph1) (deposit_loop path deposit ph2)"
proof (induction path deposit ph1 arbitrary: ph2 rule: deposit_loop.induct)
  case (1 a b rest deposit ph1)
  let ?k = "getEdgeKey a b"
  have "agree_on K (ph1(?k \<mapsto> nadd (or_number (ph1 ?k) (Num 0)) deposit))
                   (ph2(?k \<mapsto> nadd (or_number (ph2 ?k) (Num 0)) deposit))"
    using "1.prems" by (auto simp: agree_on_def)
  then show ?case
    using "1.IH" [unfolded Let_def] by (simp only: deposit_loop_step)
qed simp_all

lemma agree_on_fold_depositPheromones:
  "agree_on K ph1 ph2 \<Longrightarrow>
   agree_on K (fold (\<lambda>route ph. depositPheromones route priority ph) routes ph1)
              (fold (\<lambda>route ph. depositPheromones route priority ph) routes ph2)"
  by (induction routes arbitrary: ph1 ph2)
     (simp_all add: depositPheromones_def Let_def agree_on_deposit_loop)

lemma iterations_agree:
  assumes "agree_on (edgeKeys nodes) (pheromones st1) (pheromones st2)" "draws st1 = draws st2"
  shows "fst (iterations n rnd nodes s d p (best, bc, st1))
           = fst (iterations n rnd nodes s d p (best, bc, st2)) \<and>
         draws (snd (snd (iterations n rnd nodes s d p (best, bc, st1))))
           = draws (snd (snd (iterations n rnd nodes s d p (best, bc, st2))))"
  using assms
proof (induction n arbitrary: best bc st1 st2)
  case 0
  then show ?case by simp
next
  case (Suc n)
  obtain routes b c st1' where
    d1: "deployAnts ANT_COUNT rnd nodes s d p ([], best, bc, st1) = (routes, b, c, st1')"
    by (cases "deployAnts ANT_COUNT rnd nodes s d p ([], best, bc, st1)") auto
  obtain routes2 b2 c2 st2' where
    d2: "deployAnts ANT_COUNT rnd nodes s d p ([], best, bc, st2) = (routes2, b2, c2, st2')"
    by (cases "deployAnts ANT_COUNT rnd nodes s d p ([], best, bc, st2)") auto
  have eq: "routes2 = routes" "b2 = b" "c2 = c" and dr: "draws st1' = draws st2'"
    using deployAnts_agree [OF Suc.prems, of ANT_COUNT rnd s d p "[]" best bc]
    by (simp_all add: d1 d2)
  have "pheromones st1' = pheromones st1" "pheromones st2' = pheromones st2"
    using deployAnts_pheromones [of ANT_COUNT rnd nodes s d p "[]" best bc st1]
      deployAnts_pheromones [of ANT_COUNT rnd nodes s d p "[]" best bc st2]
    by (simp_all add: d1 d2)
  then have "agree_on (edgeKeys nodes) (pheromones st1') (pheromones st2')"
    using Suc.prems(1) by simp
  then have ag: "agree_on (edgeKeys nodes)
      (fold (\<lambda>route ph. depositPheromones route p ph) routes
         (evaporatePheromones (pheromones st1')))
      (fold (\<lambda>route ph. depositPheromones route p ph) routes
         (evaporatePheromones (pheromones st2')))"
    by (intro agree_on_fold_depositPheromones agree_on_evaporatePheromones)
  show ?case
    using Suc.IH [of "st1'\<lparr>pheromones := fold (\<lambda>route ph. depositPheromones route p ph) routes
                        (evaporatePheromones (pheromones st1'))\<rparr>"
                    "st2'\<lparr>pheromones := fold (\<lambda>route ph. depositPheromones route p ph) routes
                        (evaporatePheromones (pheromones st2'))\<rparr>" b c]
      ag dr
    by (simp add: d1 d2 eq)
qed

lemma findOptimalPath_independent:
  assumes "draws st1 = draws st2"
  shows "fst (findOptimalPath rnd nodes s d p st1) = fst (findOptimalPath rnd nodes s d p st2) \<and>
         draws (snd (findOptimalPath rnd nodes s d p st1))
           = draws (snd (findOptimalPath rnd nodes s d p st2))"
proof -
  have "agree_on (edgeKeys nodes) (pheromones (pheromones_at_start nodes st1))
                                  (pheromones (pheromones_at_start nodes st2))"
    by (simp add: agree_on_def pheromones_at_start_def initializePheromones_apply)
  moreover have "draws (pheromones_at_start nodes st1) = draws (pheromones_at_start nodes st2)"
    using assms by (simp add: pheromones_at_start_def)
  ultimately show ?thesis
    using iterations_agree [of nodes "pheromones_at_start nodes st1"
        "pheromones_at_start nodes st2" ACO_ITERATIONS rnd s d p None PInf]
    by (auto simp: findOptimalPath_def split: prod.splits)
qed

section \<open>A topology of two nodes\<close>

text \<open>
  Two nodes five units apart, each in the other's adjacency, both online with battery
  and signal 100.
\<close>

definition node_a :: Node where
  "node_a = \<lparr>node_id = ''a'', node_name = ''Alpha'', node_x = 0, node_y = 0,
              status = Online, battery = 100, signalStrength = 100,
              connections = [''b''], lastSeen = 0, messageCount = 0,
              ipAddress = ''192.168.0.1''\<rparr>"

definition node_b :: Node where
  "node_b = \<lparr>node_id = ''b'', node_name = ''Beta'', node_x = 3, node_y = 4,
              status = Online, battery = 100, signalStrength = 100,
              connections = [''a''], lastSeen = 0, messageCount = 0,
              ipAddress = ''192.168.0.2''\<rparr>"

text \<open>
  A router that has made no call, a random source that always returns 0, and a third
  node out of range of the other two.
\<close>

definition fresh_router :: aco_state where
  "fresh_router = \<lparr>pheromones = Map.empty, draws = 0\<rparr>"

definition no_draw :: "nat \<Rightarrow> real" where
  "no_draw n = 0"

definition node_c :: Node where
  "node_c = \<lparr>node_id = ''c'', node_name = ''Gamma'', node_x = 900, node_y = 0,
              status = Online, battery = 100, signalStrength = 100,
              connections = [], lastSeen = 0, messageCount = 0,
              ipAddress = ''192.168.0.3''\<rparr>"

lemma sqrt_25: "sqrt 25 = 5"
  using real_sqrt_abs [of 5] by simp

section \<open>The claims about the deterministic strategy\<close>

text \<open>
  C1. On a topology with all nodes online, battery and signal 100 and the destination
  reachable, \<open>findShortestPath\<close> is claimed to return a route of minimal cost. On the
  two-node topology the destination \<open>b\<close> is adjacent to the source \<open>a\<close>, the edge
  costs 5, and the call returns \<open>null\<close>.
\<close>

theorem findShortestPath_two_nodes_null:
  "status node_a = Online \<and> status node_b = Online \<and>
   battery node_a = 100 \<and> signalStrength node_a = 100 \<and>
   battery node_b = 100 \<and> signalStrength node_b = 100 \<and>
   ''b'' \<in> set (connections node_a) \<and>
   calculateEdgeCost node_a node_b = 5 \<and>
   findShortestPath [node_a, node_b] ''a'' ''b'' = Some None"
  by (simp add: findShortestPath_eq node_a_def node_b_def calculateEdgeCost_def euclid_def
      sqrt_25)

text \<open>
  C2. For every node list and every source distinct from the destination,
  \<open>findShortestPath\<close> returns \<open>null\<close>: read through \<open>|| Infinity\<close> the tentative
  distance of the source is \<open>Infinity\<close>, the first scan finds no node, the loop
  returns the initial state with nothing relaxed, and the reconstructed path does not
  start at the source.
\<close>

theorem findShortestPath_distinct_null:
  "sourceId \<noteq> destinationId \<Longrightarrow>
   distances (initialize nodes sourceId) sourceId = Some (Num 0) \<and>
   or_number (distances (initialize nodes sourceId) sourceId) PInf = PInf \<and>
   findMin (distances (initialize nodes sourceId)) (unvisited (initialize nodes sourceId))
     = (None, PInf) \<and>
   dijkstra_loop nodes destinationId (initialize nodes sourceId) = initialize nodes sourceId \<and>
   findShortestPath nodes sourceId destinationId = Some None"
  by (simp add: findShortestPath_eq dijkstra_loop_initialize findMin_initialize
      or_number_def falsy_def distances_initialize_source)

theorem findShortestPath_distinct_null_witness:
  "''a'' \<noteq> ''b'' \<and> findShortestPath [node_a, node_b] ''a'' ''b'' = Some None"
  using findShortestPath_distinct_null [of "''a''" "''b''" "[node_a, node_b]"] by simp

text \<open>
  C10. When the source is the destination neither strategy reports no-path, for any
  node list: \<open>findShortestPath\<close> returns the route with path \<open>[source]\<close> and cost
  \<open>Infinity\<close>, \<open>findOptimalPath\<close> the route with path \<open>[source]\<close> and cost \<open>0\<close>.
\<close>

theorem same_source_destination_routes:
  "findShortestPath nodes s s =
     Some (Some \<lparr>route_source = s, route_destination = s, route_path = [s],
                  cost = PInf, latency = 0,
                  reliability = calculateReliability [s] nodes\<rparr>) \<and>
   fst (findOptimalPath rnd nodes s s priority st) =
     Some \<lparr>route_source = s, route_destination = s, route_path = [s],
            cost = Num 0, latency = 15, reliability = 0.9\<rparr>"
  by (simp add: findShortestPath_eq findOptimalPath_same single_route_def)

section \<open>Properties of the topology operations\<close>

lemma nodes_get_None_iff: "nodes_get s k = None \<longleftrightarrow> k \<notin> node_id ` set (mesh_nodes s)"
  by (simp add: nodes_get_def find_node_None_iff)

lemma updateNodeStatus_unknown:
  "k \<notin> node_id ` set (mesh_nodes s) \<Longrightarrow> updateNodeStatus s k newStatus now = s"
  using nodes_get_None_iff [of s k] by (simp add: updateNodeStatus_def)

lemma removeNode_unknown: "k \<notin> node_id ` set (mesh_nodes s) \<Longrightarrow> removeNode s k = s"
  using nodes_get_None_iff [of s k] by (simp add: removeNode_def)

lemma findRoute_unknown:
  assumes "s \<noteq> d" "s \<notin> node_id ` set nodes \<or> d \<notin> node_id ` set nodes"
  shows "map_option fst (findRoute rnd nodes s d p st) = Some None"
  using assms(1) findOptimalPath_unknown [OF assms, of rnd p st]
  by (cases "findOptimalPath rnd nodes s d p st") (simp add: findRoute_def findShortestPath_eq)

lemma find_node_modify:
  assumes "\<And>n. node_id (f n) = node_id n"
  shows "find_node (map (\<lambda>n. if node_id n = k then f n else n) ns) j =
           (if j = k then map_option f (find_node ns j) else find_node ns j)"
  using assms by (induction ns) (auto simp: find_node_def)

lemma nodes_get_modify_node:
  assumes "\<And>n. node_id (f n) = node_id n"
  shows "nodes_get (modify_node k f s) j =
           (if j = k then map_option f (nodes_get s j) else nodes_get s j)"
  using find_node_modify [of f k "mesh_nodes s" j, OF assms]
  by (simp add: nodes_get_def modify_node_def)

lemma updateNodeStatus_known:
  assumes "nodes_get s nodeId = Some node"
  shows "nodes_get (updateNodeStatus s nodeId newStatus now) k =
           (if k = nodeId then Some (node\<lparr>status := newStatus, lastSeen := now\<rparr>)
            else nodes_get s k)"
    and "map node_id (mesh_nodes (updateNodeStatus s nodeId newStatus now))
           = map node_id (mesh_nodes s)"
    and "mesh_connections (updateNodeStatus s nodeId newStatus now) = mesh_connections s"
proof -
  have upd: "updateNodeStatus s nodeId newStatus now =
      modify_node nodeId (\<lambda>n. n\<lparr>status := newStatus, lastSeen := now\<rparr>) s"
    using assms by (simp add: updateNodeStatus_def)
  show "nodes_get (updateNodeStatus s nodeId newStatus now) k =
           (if k = nodeId then Some (node\<lparr>status := newStatus, lastSeen := now\<rparr>)
            else nodes_get s k)"
    using assms by (simp add: upd nodes_get_modify_node)
  show "map node_id (mesh_nodes (updateNodeStatus s nodeId newStatus now))
           = map node_id (mesh_nodes s)"
    by (simp add: upd modify_node_def comp_def if_distrib [of node_id] cong: if_cong)
  show "mesh_connections (updateNodeStatus s nodeId newStatus now) = mesh_connections s"
    by (simp add: upd modify_node_def)
qed

lemma findAllRoutes_eq:
  "findAllRoutes rnd nodes s d st =
     Some ((case findShortestPath nodes s d of
              Some (Some r) \<Rightarrow> [r\<lparr>reliability := 0.95\<rparr>] | _ \<Rightarrow> []) @
           (case fst (findOptimalPath rnd nodes s d Critical st) of
              None \<Rightarrow> [] | Some r \<Rightarrow> [r]),
           snd (findOptimalPath rnd nodes s d Critical st))"
  by (simp add: findAllRoutes_def findShortestPath_eq split: prod.splits)

section \<open>Symmetry of the adjacency\<close>

text \<open>
  The adjacency is symmetric when, for all nodes \<open>a\<close> and \<open>b\<close> of the topology, the id
  of \<open>b\<close> is in \<open>a.connections\<close> if and only if the id of \<open>a\<close> is in
  \<open>b.connections\<close>.
\<close>

definition symmetric :: "mesh \<Rightarrow> bool" where
  "symmetric s =
     (\<forall>a \<in> set (mesh_nodes s). \<forall>b \<in> set (mesh_nodes s).
        node_id b \<in> set (connections a) \<longleftrightarrow> node_id a \<in> set (connections b))"

text \<open>
  The states the class reaches from the empty topology by \<open>createNode\<close>,
  \<open>establishConnection\<close> and \<open>removeNode\<close>, with any arguments. The one assumption
  is on the environment: the id \<open>generateId\<close> returns is new, that is, no node has it and
  no adjacency mentions it.
\<close>

definition fresh_id :: "mesh \<Rightarrow> string \<Rightarrow> bool" where
  "fresh_id s k =
     (k \<notin> node_id ` set (mesh_nodes s) \<and> (\<forall>n \<in> set (mesh_nodes s). k \<notin> set (connections n)))"

inductive reachable :: "mesh \<Rightarrow> bool" where
  empty: "reachable empty_mesh"
| create: "reachable s \<Longrightarrow> fresh_id s newId \<Longrightarrow> reachable (createNode s newId now ip name x y)"
| establish: "reachable s \<Longrightarrow> reachable (snd (establishConnection s a b))"
| remove: "reachable s \<Longrightarrow> reachable (removeNode s nodeId)"

text \<open>
  What the scrubbing loop of \<open>removeNode x\<close> does to the nodes: ids stay, and an
  adjacency changes at most by losing \<open>x\<close>.
\<close>

definition scrubbed :: "string \<Rightarrow> Node list \<Rightarrow> Node list \<Rightarrow> bool" where
  "scrubbed x ns ns' =
     list_all2 (\<lambda>n n'. node_id n' = node_id n \<and>
                        set (connections n') - {x} = set (connections n) - {x}) ns ns'"

lemma mesh_nodes_establishConnection:
  "mesh_nodes (snd (establishConnection s a b)) =
     map (\<lambda>n. n\<lparr>connections :=
                  connections n @ (if node_id n = node_id a then [node_id b] else [])
                                @ (if node_id n = node_id b then [node_id a] else [])\<rparr>)
         (mesh_nodes s)"
  by (simp add: establishConnection_def modify_node_def Let_def)

lemma symmetric_establishConnection:
  "symmetric s \<Longrightarrow> symmetric (snd (establishConnection s a b))"
  unfolding symmetric_def mesh_nodes_establishConnection by auto

lemma symmetric_discover_fold:
  "symmetric s \<Longrightarrow>
   symmetric (fold (\<lambda>nearbyNode s.
             if node_id nearbyNode \<notin> set (connections_of s node)
             then snd (establishConnection s node nearbyNode)
             else s) xs s)"
  by (induction xs arbitrary: s) (simp_all add: symmetric_establishConnection)

lemma symmetric_discoverConnections:
  "symmetric s \<Longrightarrow> symmetric (discoverConnections s node)"
  unfolding discoverConnections_def by (rule symmetric_discover_fold)

lemma symmetric_createNode:
  assumes "symmetric s" "fresh_id s newId"
  shows "symmetric (createNode s newId now ip name x y)"
proof -
  let ?node = "\<lparr>node_id = newId, node_name = name, node_x = x, node_y = y,
                  status = Online, battery = 100, signalStrength = 100,
                  connections = [], lastSeen = now, messageCount = 0, ipAddress = ip\<rparr>"
  have "symmetric (s\<lparr>mesh_nodes := nodes_set ?node (mesh_nodes s)\<rparr>)"
    using assms by (auto simp: symmetric_def fresh_id_def nodes_set_def)
  then show ?thesis
    by (simp add: createNode_def Let_def symmetric_discoverConnections)
qed

lemma scrubbed_refl: "scrubbed x ns ns"
  by (simp add: scrubbed_def list_all2_refl)

lemma scrubbed_trans: "scrubbed x ns ns' \<Longrightarrow> scrubbed x ns' ns'' \<Longrightarrow> scrubbed x ns ns''"
  unfolding scrubbed_def
  by (rule list_all2_trans [where ?P1.0 = "\<lambda>n n'. node_id n' = node_id n \<and>
                        set (connections n') - {x} = set (connections n) - {x}"
        and ?P2.0 = "\<lambda>n n'. node_id n' = node_id n \<and>
                        set (connections n') - {x} = set (connections n) - {x}"]) auto

lemma scrubbed_modify:
  "scrubbed x (mesh_nodes s)
     (mesh_nodes (modify_node c
        (\<lambda>n. n\<lparr>connections := filter (\<lambda>i. i \<noteq> x) (connections n)\<rparr>) s))"
  by (auto simp: scrubbed_def modify_node_def list_all2_map2 intro!: list_all2_refl)

lemma scrubbed_fold:
  "scrubbed x (mesh_nodes s)
     (mesh_nodes (fold (\<lambda>connId s.
                      case nodes_get s connId of
                        None \<Rightarrow> s
                      | Some connectedNode \<Rightarrow>
                          modify_node connId
                            (\<lambda>n. n\<lparr>connections := filter (\<lambda>i. i \<noteq> x) (connections n)\<rparr>) s)
                    cs s))"
proof (induction cs arbitrary: s)
  case Nil
  then show ?case by (simp add: scrubbed_refl)
next
  case (Cons c cs)
  show ?case
  proof (cases "nodes_get s c")
    case None
    then show ?thesis using Cons.IH [of s] by simp
  next
    case (Some n)
    then show ?thesis
      using scrubbed_trans [OF scrubbed_modify [of x s c] Cons.IH] by simp
  qed
qed

lemma list_all2_set2: "list_all2 P xs ys \<Longrightarrow> y \<in> set ys \<Longrightarrow> \<exists>x \<in> set xs. P x y"
  by (induction rule: list_all2_induct) auto

lemma symmetric_removeNode:
  assumes "symmetric s"
  shows "symmetric (removeNode s x)"
proof (cases "nodes_get s x")
  case None
  with assms show ?thesis by (simp add: removeNode_def)
next
  case (Some node)
  define s1 where "s1 = fold (\<lambda>connId s.
                      case nodes_get s connId of
                        None \<Rightarrow> s
                      | Some connectedNode \<Rightarrow>
                          modify_node connId
                            (\<lambda>n. n\<lparr>connections := filter (\<lambda>i. i \<noteq> x) (connections n)\<rparr>) s)
                    (connections node) s"
  have sc: "scrubbed x (mesh_nodes s) (mesh_nodes s1)"
    unfolding s1_def by (rule scrubbed_fold)
  have nodes: "mesh_nodes (removeNode s x) = filter (\<lambda>n. node_id n \<noteq> x) (mesh_nodes s1)"
    by (simp add: removeNode_def Some s1_def Let_def)
  show ?thesis
    unfolding symmetric_def nodes
  proof (intro ballI)
    fix a' b'
    assume "a' \<in> set (filter (\<lambda>n. node_id n \<noteq> x) (mesh_nodes s1))"
      and "b' \<in> set (filter (\<lambda>n. node_id n \<noteq> x) (mesh_nodes s1))"
    then have a': "a' \<in> set (mesh_nodes s1)" "node_id a' \<noteq> x"
      and b': "b' \<in> set (mesh_nodes s1)" "node_id b' \<noteq> x" by auto
    from sc a'(1) obtain a where a: "a \<in> set (mesh_nodes s)" "node_id a' = node_id a"
      "set (connections a') - {x} = set (connections a) - {x}"
      unfolding scrubbed_def by (blast dest: list_all2_set2)
    from sc b'(1) obtain b where b: "b \<in> set (mesh_nodes s)" "node_id b' = node_id b"
      "set (connections b') - {x} = set (connections b) - {x}"
      unfolding scrubbed_def by (blast dest: list_all2_set2)
    have "node_id b' \<in> set (connections a') \<longleftrightarrow> node_id b \<in> set (connections a)"
      using a(3) b(2) b'(2) by auto
    also have "\<dots> \<longleftrightarrow> node_id a \<in> set (connections b)"
      using assms a(1) b(1) by (simp add: symmetric_def)
    also have "\<dots> \<longleftrightarrow> node_id a' \<in> set (connections b')"
      using b(3) a(2) a'(2) by auto
    finally show "node_id b' \<in> set (connections a') \<longleftrightarrow> node_id a' \<in> set (connections b')" .
  qed
qed

lemma reachable_symmetric: "reachable s \<Longrightarrow> symmetric s"
proof (induction rule: reachable.induct)
  case empty
  show ?case by (simp add: symmetric_def empty_mesh_def)
next
  case (create s newId now ip name x y)
  then show ?case by (simp add: symmetric_createNode)
next
  case (establish s a b)
  then show ?case by (simp add: symmetric_establishConnection)
next
  case (remove s nodeId)
  then show ?case by (simp add: symmetric_removeNode)
qed

section \<open>Two topologies built by the class\<close>

text \<open>
  \<open>mesh_ab\<close>: two \<open>createNode\<close> calls five units apart; discovery connects the second
  node to the first. \<open>mesh_stale\<close>: node \<open>a\<close> fails and the network heals, then \<open>a\<close>
  comes back and \<open>b\<close> goes offline, both through \<open>updateNodeStatus\<close>.
\<close>

definition mesh_ab :: mesh where
  "mesh_ab = createNode (createNode empty_mesh ''a'' 0 ''192.168.0.1'' ''Alpha'' 0 0)
               ''b'' 0 ''192.168.0.2'' ''Beta'' 3 4"

definition conn_ab :: Connection where
  "conn_ab = \<lparr>conn_nodeA = ''b'', conn_nodeB = ''a'', strength = 99.5,
               conn_latency = 10.5, active = True\<rparr>"

definition mesh_stale :: mesh where
  "mesh_stale =
     updateNodeStatus
       (updateNodeStatus
          (healNetwork (updateNodeStatus mesh_ab ''a'' Offline 1))
          ''a'' Online 2)
       ''b'' Offline 3"

lemmas mesh_eval = createNode_def empty_mesh_def nodes_set_def discoverConnections_def
  findNearbyNodes_def calculateDistance_def MAX_RANGE_def MAX_CONNECTIONS_def
  MIN_CONNECTIONS_def connections_of_def nodes_get_def find_node_def establishConnection_def
  modify_node_def Let_def sqrt_25 node_a_def node_b_def conn_ab_def updateNodeStatus_def
  healNetwork_def heal_node_def simulateFailure_def simulateRecovery_def removeNode_def

lemma mesh_ab_eq: "mesh_ab = \<lparr>mesh_nodes = [node_a, node_b], mesh_connections = [conn_ab]\<rparr>"
  by (simp add: mesh_ab_def mesh_eval)

lemma mesh_stale_eq:
  "mesh_stale =
     \<lparr>mesh_nodes = [node_a\<lparr>lastSeen := 2\<rparr>,
                    node_b\<lparr>status := Offline, connections := [], lastSeen := 3\<rparr>],
      mesh_connections = [conn_ab]\<rparr>"
  by (simp add: mesh_stale_def mesh_ab_eq mesh_eval)

section \<open>The claims about the topology manager\<close>

text \<open>
  C3. After every operation the edge list and the adjacency are claimed to agree.
  \<open>simulateFailure\<close> (that is, \<open>updateNodeStatus\<close> then \<open>healNetwork\<close>) on
  \<open>mesh_ab\<close>, where they agree, leaves the record of the connection between \<open>b\<close>
  and \<open>a\<close> in the edge list, and \<open>a\<close> in the adjacency of \<open>b\<close>, while the
  adjacency of \<open>a\<close> is empty.
\<close>

theorem simulateFailure_edge_without_adjacency:
  "mesh_ab = \<lparr>mesh_nodes = [node_a, node_b], mesh_connections = [conn_ab]\<rparr> \<and>
   connections node_a = [''b''] \<and> connections node_b = [''a''] \<and>
   conn_nodeA conn_ab = ''b'' \<and> conn_nodeB conn_ab = ''a'' \<and>
   simulateFailure mesh_ab ''b'' 7 =
     \<lparr>mesh_nodes = [node_a\<lparr>connections := []\<rparr>,
                    node_b\<lparr>status := Offline, lastSeen := 7\<rparr>],
      mesh_connections = [conn_ab]\<rparr>"
  by (simp add: mesh_ab_eq mesh_eval)

text \<open>
  C4. \<open>healNetwork\<close> is claimed to be idempotent. On \<open>mesh_stale\<close> the first pass
  empties both adjacencies; the second pass has \<open>a\<close> rediscover the offline \<open>b\<close>,
  which puts \<open>a\<close> into the adjacency of \<open>b\<close> and a second record into the edge list.
\<close>

theorem healNetwork_twice_differs:
  "map (\<lambda>n. (node_id n, connections n)) (mesh_nodes (healNetwork mesh_stale))
     = [(''a'', []), (''b'', [])] \<and>
   map (\<lambda>n. (node_id n, connections n)) (mesh_nodes (healNetwork (healNetwork mesh_stale)))
     = [(''a'', []), (''b'', [''a''])] \<and>
   length (mesh_connections (healNetwork mesh_stale)) = 1 \<and>
   length (mesh_connections (healNetwork (healNetwork mesh_stale))) = 2"
  by (simp add: mesh_stale_eq mesh_eval)

text \<open>
  C5. After any sequence of \<open>createNode\<close>, \<open>establishConnection\<close> and \<open>removeNode\<close>
  from the empty topology, for all nodes \<open>a\<close> and \<open>b\<close> of the topology the id of \<open>b\<close>
  is in \<open>a.connections\<close> if and only if the id of \<open>a\<close> is in \<open>b.connections\<close>.
\<close>

theorem adjacency_symmetric:
  "reachable s \<Longrightarrow> a \<in> set (mesh_nodes s) \<Longrightarrow> b \<in> set (mesh_nodes s) \<Longrightarrow>
   (node_id b \<in> set (connections a)) = (node_id a \<in> set (connections b))"
  using reachable_symmetric [of s] by (simp add: symmetric_def)

theorem adjacency_symmetric_witness:
  "reachable mesh_ab \<and> node_a \<in> set (mesh_nodes mesh_ab) \<and> node_b \<in> set (mesh_nodes mesh_ab) \<and>
   node_id node_b \<in> set (connections node_a) \<and> node_id node_a \<in> set (connections node_b)"
proof -
  have r: "reachable mesh_ab"
    unfolding mesh_ab_def
    by (intro reachable.create reachable.empty) (simp_all add: fresh_id_def mesh_eval)
  have a: "node_a \<in> set (mesh_nodes mesh_ab)" and b: "node_b \<in> set (mesh_nodes mesh_ab)"
    by (simp_all add: mesh_ab_eq)
  have "node_id node_b \<in> set (connections node_a)" by (simp add: node_a_def node_b_def)
  then show ?thesis using adjacency_symmetric [OF r a b] r a b by simp
qed

text \<open>
  C9. \<open>updateNodeStatus\<close> on a known id is claimed to refresh \<open>lastSeen\<close> when the
  new status is online and to leave it unchanged otherwise. The assignment to
  \<open>lastSeen\<close> is not guarded by the status: set offline at time 7, node \<open>b\<close> of
  \<open>mesh_ab\<close>, last seen at 0, is last seen at 7. \<open>simulateRecovery\<close>, the other
  method of the class that sets a status, leaves \<open>lastSeen\<close> as it is.
\<close>

theorem updateNodeStatus_offline_refreshes_lastSeen:
  "nodes_get mesh_ab ''b'' = Some node_b \<and> lastSeen node_b = 0 \<and>
   map_option lastSeen (nodes_get (updateNodeStatus mesh_ab ''b'' Offline 7) ''b'') = Some 7 \<and>
   map_option lastSeen
     (nodes_get (simulateRecovery (updateNodeStatus mesh_ab ''b'' Offline 7) ''b'') ''b'')
     = Some 7"
  by (simp add: mesh_ab_eq mesh_eval)

section \<open>The claims about the stochastic strategy and the facade\<close>

text \<open>
  C6. At the start of every call the pheromone map is claimed to hold exactly the edges
  of the supplied topology. The map is a field of the router and is never cleared: after
  a call on the two-node topology, a call on the single node \<open>c\<close>, which has no edge,
  starts with the key of the edge between \<open>a\<close> and \<open>b\<close> in the map.
\<close>

theorem pheromones_persist:
  "''a-b'' \<notin> edgeKeys [node_c] \<and>
   ''a-b'' \<in> dom (pheromones (pheromones_at_start [node_c]
       (snd (findOptimalPath no_draw [node_a, node_b] ''a'' ''b'' Normal fresh_router))))"
proof -
  have "''a-b'' \<in> dom (pheromones (pheromones_at_start [node_a, node_b] fresh_router))"
    by (simp add: pheromones_at_start_def initializePheromones_apply edgeKeys_def
        node_a_def node_b_def getEdgeKey_def dom_def)
  then have "''a-b'' \<in> dom (pheromones
       (snd (findOptimalPath no_draw [node_a, node_b] ''a'' ''b'' Normal fresh_router)))"
    using findOptimalPath_keeps_keys by blast
  then show ?thesis
    by (auto simp: pheromones_at_start_def initializePheromones_apply edgeKeys_def node_c_def)
qed

text \<open>
  C6 as amended: at the start of every call each edge key of the supplied topology is
  in the map with the initial constant, and every other key has the entry the earlier
  calls left, if any; on a router that has made no call the keys of the map are exactly
  the edge keys of the topology. The entries earlier calls left are never read: the
  route a call returns is the route the same call returns on a router whose map is
  empty.
\<close>

theorem pheromones_at_start_eq:
  "pheromones (pheromones_at_start nodes st) key =
     (if key \<in> edgeKeys nodes then Some PHEROMONE_INITIAL else pheromones st key) \<and>
   dom (pheromones (pheromones_at_start nodes fresh_router)) = edgeKeys nodes \<and>
   fst (findOptimalPath rnd nodes s d priority st) =
     fst (findOptimalPath rnd nodes s d priority (st\<lparr>pheromones := Map.empty\<rparr>))"
proof -
  have "fst (findOptimalPath rnd nodes s d priority st) =
      fst (findOptimalPath rnd nodes s d priority (st\<lparr>pheromones := Map.empty\<rparr>))"
    using findOptimalPath_independent [of st "st\<lparr>pheromones := Map.empty\<rparr>" rnd nodes s d priority]
    by simp
  then show ?thesis
    by (auto simp: pheromones_at_start_def initializePheromones_apply fresh_router_def dom_def)
qed

theorem pheromones_at_start_eq_witness:
  "pheromones (pheromones_at_start [node_a, node_b] fresh_router) ''a-b'' = Some (Num 1) \<and>
   dom (pheromones (pheromones_at_start [node_a, node_b] fresh_router)) = {''a-b''}"
  using pheromones_at_start_eq [of "[node_a, node_b]" fresh_router "''a-b''"]
  by (simp add: edgeKeys_def node_a_def node_b_def getEdgeKey_def PHEROMONE_INITIAL_def)

text \<open>
  C7. Routing with an unknown source or destination is claimed to return no-path. With
  the unknown id \<open>x\<close> as source and destination both strategies return a route.
\<close>

theorem findRoute_unknown_same_id_route:
  "''x'' \<notin> node_id ` set [node_a, node_b] \<and>
   map_option fst (findRoute no_draw [node_a, node_b] ''x'' ''x'' Critical fresh_router) =
     Some (Some \<lparr>route_source = ''x'', route_destination = ''x'', route_path = [''x''],
                  cost = PInf, latency = 0, reliability = 1\<rparr>) \<and>
   map_option fst (findRoute no_draw [node_a, node_b] ''x'' ''x'' Normal fresh_router) =
     Some (Some \<lparr>route_source = ''x'', route_destination = ''x'', route_path = [''x''],
                  cost = Num 0, latency = 15, reliability = 0.9\<rparr>)"
proof -
  have "fst (findOptimalPath no_draw [node_a, node_b] ''x'' ''x'' Normal fresh_router)
      = Some (single_route ''x'')"
    by (rule findOptimalPath_same)
  then show ?thesis
    by (cases "findOptimalPath no_draw [node_a, node_b] ''x'' ''x'' Normal fresh_router")
       (simp add: findRoute_def findShortestPath_eq calculateReliability_def find_node_def
          node_a_def node_b_def single_route_def)
qed

text \<open>
  C7 as amended: for an id absent from the topology \<open>updateNodeStatus\<close> and
  \<open>removeNode\<close> return the state unchanged; a routing call through the facade whose
  source differs from its destination and whose source or destination is unknown
  returns no-path, for every priority. No call throws.
\<close>

theorem unknown_id_operations:
  assumes "k \<notin> node_id ` set (mesh_nodes m)"
    and "source \<noteq> destination"
    and "source \<notin> node_id ` set nodes \<or> destination \<notin> node_id ` set nodes"
  shows "updateNodeStatus m k newStatus now = m \<and> removeNode m k = m \<and>
         map_option fst (findRoute rnd nodes source destination priority st) = Some None"
  using assms by (simp add: updateNodeStatus_unknown removeNode_unknown findRoute_unknown)

theorem unknown_id_operations_witness:
  "updateNodeStatus mesh_ab ''x'' Offline 7 = mesh_ab \<and> removeNode mesh_ab ''x'' = mesh_ab \<and>
   map_option fst (findRoute no_draw [node_a, node_b] ''a'' ''x'' Normal fresh_router)
     = Some None \<and>
   map_option fst (findRoute no_draw [node_a, node_b] ''x'' ''b'' Critical fresh_router)
     = Some None"
proof -
  have k: "''x'' \<notin> node_id ` set (mesh_nodes mesh_ab)"
    by (simp add: mesh_ab_eq node_a_def node_b_def)
  have n: "''a'' \<notin> node_id ` set [node_a, node_b] \<or> ''x'' \<notin> node_id ` set [node_a, node_b]"
    by (simp add: node_a_def node_b_def)
  have n': "''x'' \<notin> node_id ` set [node_a, node_b] \<or> ''b'' \<notin> node_id ` set [node_a, node_b]"
    by (simp add: node_a_def node_b_def)
  have ax: "''a'' \<noteq> ''x''" and xb: "''x'' \<noteq> ''b''" by simp_all
  show ?thesis
    using unknown_id_operations [OF k ax n, of Offline 7 no_draw Normal fresh_router]
      unknown_id_operations [OF k xb n', of Offline 7 no_draw Critical fresh_router]
    by simp
qed

text \<open>
  C8. The deterministic candidate of \<open>findAllRoutes\<close> is claimed to carry the
  reliability the deterministic strategy computed. From \<open>a\<close> to \<open>a\<close> on the two-node
  topology the strategy computes reliability 1; the candidate returned carries 0.95.
\<close>

theorem findAllRoutes_overrides_reliability:
  "map_option (map_option reliability) (findShortestPath [node_a, node_b] ''a'' ''a'')
     = Some (Some 1) \<and>
   map_option (map reliability \<circ> fst)
       (findAllRoutes no_draw [node_a, node_b] ''a'' ''a'' fresh_router)
     = Some [0.95, 0.9]"
  by (simp add: findAllRoutes_eq findShortestPath_eq findOptimalPath_same single_route_def
      calculateReliability_def find_node_def node_a_def)

text \<open>
  C8 as amended: \<open>findAllRoutes\<close> runs the deterministic strategy once and the
  stochastic strategy once under priority critical and returns every candidate found,
  the deterministic one first. The deterministic candidate is the route the strategy
  returned with its reliability replaced by the stand-in 0.95; the stochastic candidate
  carries that strategy's stand-in 0.9.
\<close>

theorem findAllRoutes_candidates:
  "findShortestPath nodes s d \<noteq> None \<and>
   map_option fst (findAllRoutes rnd nodes s d st) =
     Some ((case findShortestPath nodes s d of
              Some (Some r) \<Rightarrow> [r\<lparr>reliability := 0.95\<rparr>] | _ \<Rightarrow> []) @
           (case fst (findOptimalPath rnd nodes s d Critical st) of
              None \<Rightarrow> [] | Some r \<Rightarrow> [r])) \<and>
   map_option reliability (fst (findOptimalPath rnd nodes s d Critical st))
     \<in> {None, Some 0.9}"
proof -
  have "map_option reliability (fst (findOptimalPath rnd nodes s d Critical st))
      \<in> {None, Some 0.9}"
    using findOptimalPath_reliability [of rnd nodes s d Critical st]
    by (cases "fst (findOptimalPath rnd nodes s d Critical st)") auto
  then show ?thesis by (simp add: findAllRoutes_eq findShortestPath_eq)
qed

theorem findAllRoutes_candidates_witness:
  "map_option fst (findAllRoutes no_draw [node_a, node_b] ''a'' ''a'' fresh_router) =
     Some [\<lparr>route_source = ''a'', route_destination = ''a'', route_path = [''a''],
            cost = PInf, latency = 0, reliability = 0.95\<rparr>,
           \<lparr>route_source = ''a'', route_destination = ''a'', route_path = [''a''],
            cost = Num 0, latency = 15, reliability = 0.9\<rparr>]"
  using findAllRoutes_candidates [of "[node_a, node_b]" "''a''" "''a''" no_draw fresh_router]
  by (simp add: findShortestPath_eq findOptimalPath_same single_route_def)

end
